theory Spec2Isabelle
  imports Complex_Main "HOL-Library.AList" "HOL-Library.Sublist"
begin

section \<open>Python strings used by the memory manager\<close>

text \<open>
  The manager of \<^verbatim>\<open>app.py\<close> keys its page table by the formatted string
  \<^verbatim>\<open>f"P{pid}-{page_num}"\<close> and decodes such a key again with \<^verbatim>\<open>split('-')\<close> and
  \<^verbatim>\<open>int(...)\<close> when it evicts a page. The model keeps the strings: process ids, page
  numbers and frame numbers are Python ints (\<open>int\<close>), \<^verbatim>\<open>str(n)\<close> is decimal printing and
  \<^verbatim>\<open>int(s)\<close> is the parser of decimal literals (surrounding white space, a sign,
  single underscores between digits), which fails with \<^verbatim>\<open>ValueError\<close>.
\<close>

text \<open>The ten decimal digits are the characters with codes 48 to 57.\<close>

definition digit_char :: "nat \<Rightarrow> char" where
  "digit_char d = char_of (48 + d)"

fun str_nat :: "nat \<Rightarrow> string" where
  "str_nat n = (if n < 10 then [digit_char n] else str_nat (n div 10) @ [digit_char (n mod 10)])"

declare str_nat.simps [simp del]

definition str_int :: "int \<Rightarrow> string" where
  "str_int i = (if i < 0 then CHR ''-'' # str_nat (nat (- i)) else str_nat (nat i))"

definition digit_val :: "char \<Rightarrow> nat option" where
  "digit_val c =
     (let i = (of_char c :: nat) in if 48 \<le> i \<and> i \<le> 57 then Some (i - 48) else None)"

definition is_digit :: "char \<Rightarrow> bool" where
  "is_digit c \<longleftrightarrow> digit_val c \<noteq> None"

definition is_space :: "char \<Rightarrow> bool" where
  "is_space c \<longleftrightarrow> c \<in> set [CHR '' '', CHR 0x09, CHR 0x0A, CHR 0x0B, CHR 0x0C, CHR 0x0D,
                             CHR 0x1C, CHR 0x1D, CHR 0x1E, CHR 0x1F]"

definition strip :: "string \<Rightarrow> string" where
  "strip s = rev (dropWhile is_space (rev (dropWhile is_space s)))"

fun int_digits :: "nat \<Rightarrow> string \<Rightarrow> nat option" where
  "int_digits acc [] = Some acc"
| "int_digits acc (c # cs) =
     (if c = CHR ''_'' then
        (case cs of
           [] \<Rightarrow> None
         | d # ds \<Rightarrow> (case digit_val d of None \<Rightarrow> None | Some v \<Rightarrow> int_digits (acc * 10 + v) ds))
      else (case digit_val c of None \<Rightarrow> None | Some v \<Rightarrow> int_digits (acc * 10 + v) cs))"

definition int_body :: "string \<Rightarrow> nat option" where
  "int_body s =
     (case s of
        [] \<Rightarrow> None
      | c # cs \<Rightarrow> (case digit_val c of None \<Rightarrow> None | Some v \<Rightarrow> int_digits v cs))"

text \<open>\<^verbatim>\<open>int(s)\<close>: \<open>None\<close> stands for the \<^verbatim>\<open>ValueError\<close> of a malformed literal.\<close>

definition py_int :: "string \<Rightarrow> int option" where
  "py_int s =
     (case strip s of
        [] \<Rightarrow> None
      | c # r \<Rightarrow>
          if c = CHR ''-'' then map_option (\<lambda>n. - int n) (int_body r)
          else if c = CHR ''+'' then map_option int (int_body r)
          else map_option int (int_body (c # r)))"

text \<open>\<^verbatim>\<open>s.split(c)\<close> for a one-character separator: always at least one part.\<close>

fun split_on :: "char \<Rightarrow> string \<Rightarrow> string list" where
  "split_on c [] = [[]]"
| "split_on c (x # xs) =
     (if x = c then [] # split_on c xs
      else (case split_on c xs of [] \<Rightarrow> [[x]] | p # ps \<Rightarrow> (x # p) # ps))"

text \<open>\<^verbatim>\<open>s.startswith(p)\<close>.\<close>

definition startswith :: "string \<Rightarrow> string \<Rightarrow> bool" where
  "startswith s p \<longleftrightarrow> prefix p s"

section \<open>Data of the memory manager\<close>

text \<open>A frame of \<^verbatim>\<open>self.memory\<close> is \<^verbatim>\<open>None\<close> or a dict with keys pid, page_num, color.\<close>

record frame =
  f_pid :: int
  f_page_num :: int
  f_color :: string

text \<open>A page descriptor of a process: \<^verbatim>\<open>{'page_num': i, 'frame_num': None}\<close>.\<close>

record page =
  page_num :: int
  frame_num :: "int option"

record process =
  pid :: int
  psize :: int
  pages :: "page list"
  color :: string

text \<open>
  A page-table entry. Time stamps are readings of \<^verbatim>\<open>time.time()\<close>; the code only stores
  and compares them, so they are modelled as reals (every finite float is one).
\<close>

record entry =
  e_frame_num :: int
  alloc_time :: real
  last_used :: real

record stats =
  page_faults :: int
  page_hits :: int

record log_entry =
  timestamp :: real
  message :: string

text \<open>
  The attributes of \<^verbatim>\<open>MemoryManager\<close>. Python dicts keep insertion order, and the code
  iterates over \<^verbatim>\<open>page_table.items()\<close> and \<^verbatim>\<open>processes.values()\<close>, so both dicts are
  association lists in insertion order: \<open>AList.update\<close> overwrites in place or appends,
  \<open>AList.delete\<close> removes a key.
\<close>

record mm =
  memory_size :: int
  memory :: "frame option list"
  page_table :: "(string \<times> entry) list"
  processes :: "(int \<times> process) list"
  process_counter :: int
  allocation_queue :: "int list"
  stats :: stats
  logs :: "log_entry list"

datatype error = ProcessNotFound | NoFramesAvailable | ValueError | IndexError | KeyError

text \<open>
  \<open>ProcessNotFound\<close> and \<open>NoFramesAvailable\<close> are the two error dicts the code returns
  (\<^verbatim>\<open>'Process not found'\<close>, \<^verbatim>\<open>'No frames available'\<close>); \<open>ValueError\<close>, \<open>IndexError\<close>
  and \<open>KeyError\<close> are Python exceptions that leave the call, with the state as mutated
  so far.
\<close>

definition dict_in :: "'k \<Rightarrow> ('k \<times> 'v) list \<Rightarrow> bool" where
  "dict_in k d \<longleftrightarrow> k \<in> fst ` set d"

section \<open>Operations\<close>

text \<open>\<^verbatim>\<open>__init__\<close>: \<^verbatim>\<open>[None] * memory_size\<close> is empty for a size below one.\<close>

definition MemoryManager :: "int \<Rightarrow> mm" where
  "MemoryManager n =
     \<lparr>memory_size = n, memory = replicate (nat n) None, page_table = [], processes = [],
      process_counter = 1, allocation_queue = [],
      stats = \<lparr>page_faults = 0, page_hits = 0\<rparr>, logs = []\<rparr>"

text \<open>\<^verbatim>\<open>add_log\<close>; \<open>t\<close> is the reading of the clock.\<close>

definition add_log :: "real \<Rightarrow> string \<Rightarrow> mm \<Rightarrow> mm" where
  "add_log t msg s =
     (let l = logs s @ [\<lparr>timestamp = t, message = msg\<rparr>]
      in s\<lparr>logs := (if length l > 50 then tl l else l)\<rparr>)"

definition process_color :: "int \<Rightarrow> string" where
  "process_color p = ''hsl('' @ str_int ((p * 137) mod 360) @ '', 70%, 60%)''"

text \<open>
  \<^verbatim>\<open>create_process\<close>; \<open>sz\<close> is the value drawn by \<^verbatim>\<open>random.randint(2, 4)\<close> and \<open>t\<close> the
  clock reading of the log entry. Returns the new descriptor and the state.
\<close>

definition create_process :: "real \<Rightarrow> int \<Rightarrow> mm \<Rightarrow> process \<times> mm" where
  "create_process t sz s =
     (let p = process_counter s;
          proc = \<lparr>pid = p, psize = sz,
                  pages = map (\<lambda>i. \<lparr>page_num = i, frame_num = None\<rparr>) [0..sz - 1],
                  color = process_color p\<rparr>;
          s1 = s\<lparr>processes := AList.update p proc (processes s), process_counter := p + 1\<rparr>
      in (proc, add_log t (''Process P'' @ str_int p @ '' created ('' @ str_int sz @ '' pages)'') s1))"

fun find_free_from :: "nat \<Rightarrow> frame option list \<Rightarrow> int" where
  "find_free_from i [] = - 1"
| "find_free_from i (f # fs) = (if f = None then int i else find_free_from (Suc i) fs)"

definition find_free_frame :: "mm \<Rightarrow> int" where
  "find_free_frame s = find_free_from 0 (memory s)"

definition find_victim_fifo :: "mm \<Rightarrow> int" where
  "find_victim_fifo s = (case allocation_queue s of [] \<Rightarrow> - 1 | f # _ \<Rightarrow> f)"

text \<open>
  The scan of \<^verbatim>\<open>find_victim_lru\<close>; \<open>oldest = None\<close> is the initial \<^verbatim>\<open>float('inf')\<close>,
  above every time stamp.
\<close>

fun lru_scan :: "(string \<times> entry) list \<Rightarrow> real option \<Rightarrow> int \<Rightarrow> int" where
  "lru_scan [] oldest victim = victim"
| "lru_scan (kv # rest) oldest victim =
     (if (case oldest of None \<Rightarrow> True | Some t \<Rightarrow> last_used (snd kv) < t)
      then lru_scan rest (Some (last_used (snd kv))) (e_frame_num (snd kv))
      else lru_scan rest oldest victim)"

definition find_victim_lru :: "mm \<Rightarrow> int" where
  "find_victim_lru s = lru_scan (page_table s) None (- 1)"

definition page_key :: "int \<Rightarrow> int \<Rightarrow> string" where
  "page_key p n = ''P'' @ str_int p @ ''-'' @ str_int n"

text \<open>Lines 92 to 96: the first key of the page table whose entry holds the frame.\<close>

fun find_victim_key :: "int \<Rightarrow> (string \<times> entry) list \<Rightarrow> string option" where
  "find_victim_key f [] = None"
| "find_victim_key f (kv # rest) =
     (if e_frame_num (snd kv) = f then Some (fst kv) else find_victim_key f rest)"

text \<open>
  Lines 98 to 108, the eviction of the page in frame \<open>f\<close>. An empty key is falsy in
  \<^verbatim>\<open>if victim_key:\<close>. The result is the exception raised, if any, and the state then.
\<close>

definition evict_victim :: "real \<Rightarrow> int \<Rightarrow> string \<Rightarrow> mm \<Rightarrow> error option \<times> mm" where
  "evict_victim t_evict f algorithm s =
     (case find_victim_key f (page_table s) of
        None \<Rightarrow> (None, s)
      | Some victim_key \<Rightarrow>
          if victim_key = [] then (None, s)
          else
            (case split_on CHR ''-'' victim_key of
               [] \<Rightarrow> (Some IndexError, s)
             | p0 # ps \<Rightarrow>
                 (case py_int (drop 1 p0) of
                    None \<Rightarrow> (Some ValueError, s)
                  | Some victim_pid \<Rightarrow>
                      (case ps of
                         [] \<Rightarrow> (Some IndexError, s)
                       | p1 # _ \<Rightarrow>
                           (case py_int p1 of
                              None \<Rightarrow> (Some ValueError, s)
                            | Some victim_page \<Rightarrow>
                                (let s1 = add_log t_evict
                                       (''Page fault: Evicting P'' @ str_int victim_pid
                                          @ '' page '' @ str_int victim_page) s
                                 in if algorithm = ''fifo'' then
                                      (if f \<in> set (allocation_queue s1)
                                       then (None, s1\<lparr>allocation_queue := remove1 f (allocation_queue s1),
                                                      page_table := AList.delete victim_key (page_table s1)\<rparr>)
                                       else (Some ValueError, s1))
                                    else (None, s1\<lparr>page_table := AList.delete victim_key (page_table s1)\<rparr>)))))))"

text \<open>
  Python list indexing: a negative index counts from the end, anything outside raises
  \<^verbatim>\<open>IndexError\<close> (\<open>None\<close>).
\<close>

definition py_index :: "nat \<Rightarrow> int \<Rightarrow> nat option" where
  "py_index n i =
     (if 0 \<le> i \<and> i < int n then Some (nat i)
      else if - int n \<le> i \<and> i < 0 then Some (nat (int n + i))
      else None)"

text \<open>Lines 110 to 129: the page is written into frame \<open>f\<close>.\<close>

definition place_page :: "real \<Rightarrow> real \<Rightarrow> int \<Rightarrow> int \<Rightarrow> string \<Rightarrow> int \<Rightarrow> mm \<Rightarrow> (error + bool) \<times> mm" where
  "place_page t_now t_log p n algorithm f s =
     (case map_of (processes s) p of
        None \<Rightarrow> (Inl KeyError, s)
      | Some proc \<Rightarrow>
          (case py_index (length (memory s)) f of
             None \<Rightarrow> (Inl IndexError, s)
           | Some i \<Rightarrow>
               (let s1 = s\<lparr>memory := (memory s)[i := Some \<lparr>f_pid = p, f_page_num = n, f_color = color proc\<rparr>]\<rparr>;
                    s2 = s1\<lparr>page_table := AList.update (page_key p n)
                                \<lparr>e_frame_num = f, alloc_time = t_now, last_used = t_now\<rparr> (page_table s1)\<rparr>;
                    s3 = (if algorithm = ''fifo''
                          then s2\<lparr>allocation_queue := allocation_queue s2 @ [f]\<rparr> else s2)
                in (Inr False,
                    add_log t_log (''Allocated P'' @ str_int p @ '' page '' @ str_int n
                                     @ '' to frame '' @ str_int f) s3))))"

text \<open>Lines 72 to 75, a page hit; \<open>t_now\<close> and \<open>t_log\<close> are the two clock readings.\<close>

definition page_hit :: "real \<Rightarrow> real \<Rightarrow> int \<Rightarrow> int \<Rightarrow> mm \<Rightarrow> mm" where
  "page_hit t_now t_log p n s =
     (let s1 = s\<lparr>stats := (stats s)\<lparr>page_hits := page_hits (stats s) + 1\<rparr>\<rparr>;
          s2 = s1\<lparr>page_table := AList.map_entry (page_key p n) (\<lambda>e. e\<lparr>last_used := t_now\<rparr>)
                      (page_table s1)\<rparr>
      in add_log t_log (''Page hit: P'' @ str_int p @ '' page '' @ str_int n) s2)"

text \<open>Line 78.\<close>

definition count_fault :: "mm \<Rightarrow> mm" where
  "count_fault s = s\<lparr>stats := (stats s)\<lparr>page_faults := page_faults (stats s) + 1\<rparr>\<rparr>"

text \<open>Lines 83 to 86: every algorithm other than \<^verbatim>\<open>'fifo'\<close> is LRU.\<close>

definition select_victim :: "string \<Rightarrow> mm \<Rightarrow> int" where
  "select_victim algorithm s =
     (if algorithm = ''fifo'' then find_victim_fifo s else find_victim_lru s)"

text \<open>Lines 79 to 129, after the fault has been counted.\<close>

definition page_fault ::
    "real \<Rightarrow> real \<Rightarrow> real \<Rightarrow> int \<Rightarrow> int \<Rightarrow> string \<Rightarrow> mm \<Rightarrow> (error + bool) \<times> mm" where
  "page_fault t_evict t_now t_log p n algorithm s =
     (let f = find_free_frame s
      in if f \<noteq> - 1 then place_page t_now t_log p n algorithm f s
         else
           (let v = select_victim algorithm s
            in if v = - 1 then (Inl NoFramesAvailable, s)
               else
                 (case evict_victim t_evict v algorithm s of
                    (Some e, s2) \<Rightarrow> (Inl e, s2)
                  | (None, s2) \<Rightarrow> place_page t_now t_log p n algorithm v s2)))"

text \<open>
  \<^verbatim>\<open>allocate_page\<close> (the operation \<^verbatim>\<open>access_page\<close> of the specification). The result is
  \<open>Inr True\<close> for a hit, \<open>Inr False\<close> for a fault that was served. The three clock
  readings are those of the eviction's log entry (line 102), of the time stamp stored in
  the page table (line 73 or 118) and of the last log entry (line 74 or 128); a call
  reads each at most once. In the test of line 71 the entry's \<^verbatim>\<open>frame_num\<close> is an int,
  never \<^verbatim>\<open>None\<close>.
\<close>

definition allocate_page ::
    "real \<Rightarrow> real \<Rightarrow> real \<Rightarrow> int \<Rightarrow> int \<Rightarrow> string \<Rightarrow> mm \<Rightarrow> (error + bool) \<times> mm" where
  "allocate_page t_evict t_now t_log p n algorithm s =
     (if \<not> dict_in p (processes s) then (Inl ProcessNotFound, s)
      else if dict_in (page_key p n) (page_table s) then (Inr True, page_hit t_now t_log p n s)
      else page_fault t_evict t_now t_log p n algorithm (count_fault s))"

text \<open>Lines 136 to 141, one round of the loop over the frame indices.\<close>

definition free_frame :: "int \<Rightarrow> nat \<Rightarrow> frame option list \<times> int list \<Rightarrow> frame option list \<times> int list" where
  "free_frame p i mq =
     (case fst mq ! i of
        None \<Rightarrow> mq
      | Some fr \<Rightarrow>
          if f_pid fr = p
          then ((fst mq)[i := None],
                (if int i \<in> set (snd mq) then remove1 (int i) (snd mq) else snd mq))
          else mq)"

text \<open>The prefix \<^verbatim>\<open>f"P{pid}-"\<close> of line 144.\<close>

definition process_prefix :: "int \<Rightarrow> string" where
  "process_prefix p = ''P'' @ str_int p @ ''-''"

definition remove_process :: "real \<Rightarrow> int \<Rightarrow> mm \<Rightarrow> (error + unit) \<times> mm" where
  "remove_process t p s =
     (if \<not> dict_in p (processes s) then (Inl ProcessNotFound, s)
      else
        (let mq = fold (free_frame p) [0..<length (memory s)] (memory s, allocation_queue s);
             keys_to_remove = filter (\<lambda>k. startswith k (process_prefix p))
                                (map fst (page_table s));
             s1 = s\<lparr>memory := fst mq, allocation_queue := snd mq,
                    page_table := fold AList.delete keys_to_remove (page_table s),
                    processes := AList.delete p (processes s)\<rparr>
         in (Inr (), add_log t (''Process P'' @ str_int p @ '' terminated'') s1)))"

record state_view =
  v_memory :: "frame option list"
  v_processes :: "process list"
  v_stats :: stats
  v_logs :: "log_entry list"

text \<open>\<^verbatim>\<open>get_state\<close>; \<^verbatim>\<open>logs[-10:]\<close> is the last ten entries, or all of fewer.\<close>

definition get_state :: "mm \<Rightarrow> state_view" where
  "get_state s =
     \<lparr>v_memory = memory s, v_processes = map snd (processes s), v_stats = stats s,
      v_logs = drop (length (logs s) - 10) (logs s)\<rparr>"

definition reset :: "mm \<Rightarrow> mm" where
  "reset s = MemoryManager (memory_size s)"

section \<open>Runs of operations\<close>

text \<open>
  A request to the manager, with what the environment supplies to it: the clock
  readings, and the page count drawn for a new process.
\<close>

datatype op =
    CreateProcess real int
  | AccessPage real real real int int string
  | RemoveProcess real int
  | GetState
  | Reset

fun step :: "op \<Rightarrow> mm \<Rightarrow> mm" where
  "step (CreateProcess t sz) s = snd (create_process t sz s)"
| "step (AccessPage t_evict t_now t_log p n a) s = snd (allocate_page t_evict t_now t_log p n a s)"
| "step (RemoveProcess t p) s = snd (remove_process t p s)"
| "step GetState s = s"
| "step Reset s = reset s"

definition run :: "op list \<Rightarrow> mm \<Rightarrow> mm" where
  "run ops s = fold step ops s"

section \<open>Invariants\<close>

text \<open>No page descriptor of any process names a frame.\<close>

definition nonresident :: "mm \<Rightarrow> bool" where
  "nonresident s \<longleftrightarrow> (\<forall>proc \<in> snd ` set (processes s). \<forall>pg \<in> set (pages proc). frame_num pg = None)"

text \<open>
  The frames in use, each with the page-table key of the page it holds, and the page
  table seen the same way. The manager is consistent when the two agree, no key and no
  queue element occurs twice, and the queue only names frames in use.
\<close>

definition occupied :: "frame option list \<Rightarrow> (nat \<times> string) set" where
  "occupied mem =
     {(i, page_key (f_pid fr) (f_page_num fr)) | i fr. i < length mem \<and> mem ! i = Some fr}"

definition resident :: "(string \<times> entry) list \<Rightarrow> (nat \<times> string) set" where
  "resident pt = (\<lambda>ke. (nat (e_frame_num (snd ke)), fst ke)) ` set pt"

definition consistent :: "mm \<Rightarrow> bool" where
  "consistent s \<longleftrightarrow>
     distinct (map fst (page_table s))
     \<and> (\<forall>ke \<in> set (page_table s). 0 \<le> e_frame_num (snd ke))
     \<and> resident (page_table s) = occupied (memory s)
     \<and> distinct (allocation_queue s)
     \<and> (\<forall>f \<in> set (allocation_queue s). 0 \<le> f \<and> nat f \<in> fst ` occupied (memory s))"

text \<open>A frame held by process \<open>p\<close>, and what removing \<open>p\<close> makes of a frame.\<close>

definition owned_by :: "int \<Rightarrow> frame option \<Rightarrow> bool" where
  "owned_by p f = (case f of None \<Rightarrow> False | Some fr \<Rightarrow> f_pid fr = p)"

definition release :: "int \<Rightarrow> frame option \<Rightarrow> frame option" where
  "release p f = (if owned_by p f then None else f)"

text \<open>A request that leaves the LRU policy alone: anything but an LRU access.\<close>

fun uses_fifo :: "op \<Rightarrow> bool" where
  "uses_fifo (AccessPage t_evict t_now t_log p n algorithm) = (algorithm = ''fifo'')"
| "uses_fifo _ = True"

section \<open>Printing and parsing of integers\<close>

lemma digit_val_digit_char: "d < 10 \<Longrightarrow> digit_val (digit_char d) = Some d"
  by (simp add: digit_val_def digit_char_def Let_def)

lemma is_digit_digit_char: "d < 10 \<Longrightarrow> is_digit (digit_char d)"
  by (simp add: is_digit_def digit_val_digit_char)

lemma str_nat_digits: "c \<in> set (str_nat n) \<Longrightarrow> is_digit c"
proof (induction n arbitrary: c rule: str_nat.induct)
  case (1 n)
  show ?case
  proof (cases "n < 10")
    case True
    with "1.prems" show ?thesis
      by (simp add: str_nat.simps [of n] is_digit_digit_char)
  next
    case False
    with "1.prems" "1.IH" show ?thesis
      by (auto simp add: str_nat.simps [of n] is_digit_digit_char)
  qed
qed

lemma str_nat_nonempty: "str_nat n \<noteq> []"
  by (subst str_nat.simps) simp

lemma digit_not_underscore: "is_digit c \<Longrightarrow> c \<noteq> CHR ''_''"
  by (auto simp: is_digit_def digit_val_def Let_def split: if_splits)

lemma int_digits_snoc:
  "\<forall>c \<in> set xs. is_digit c \<Longrightarrow> digit_val d = Some v \<Longrightarrow>
   int_digits acc (xs @ [d]) = map_option (\<lambda>a. a * 10 + v) (int_digits acc xs)"
proof (induction xs arbitrary: acc)
  case Nil
  have "d \<noteq> CHR ''_''" using Nil.prems(2) digit_not_underscore [of d] by (simp add: is_digit_def)
  then show ?case using Nil.prems(2) by simp
next
  case (Cons x xs)
  have dx: "is_digit x" and dxs: "\<forall>c \<in> set xs. is_digit c" using Cons.prems(1) by simp_all
  have nu: "x \<noteq> CHR ''_''" using dx digit_not_underscore by blast
  obtain w where w: "digit_val x = Some w" using dx by (auto simp: is_digit_def)
  have "int_digits acc ((x # xs) @ [d]) = int_digits (acc * 10 + w) (xs @ [d])"
    using nu w by simp
  also have "\<dots> = map_option (\<lambda>a. a * 10 + v) (int_digits (acc * 10 + w) xs)"
    by (rule Cons.IH [OF dxs Cons.prems(2)])
  also have "int_digits (acc * 10 + w) xs = int_digits acc (x # xs)"
    using nu w by simp
  finally show ?case .
qed

lemma int_body_snoc:
  "xs \<noteq> [] \<Longrightarrow> \<forall>c \<in> set xs. is_digit c \<Longrightarrow> digit_val d = Some v \<Longrightarrow>
   int_body (xs @ [d]) = map_option (\<lambda>a. a * 10 + v) (int_body xs)"
proof (cases xs)
  case Nil
  assume "xs \<noteq> []"
  with Nil show ?thesis by simp
next
  case (Cons x ys)
  assume dg: "\<forall>c \<in> set xs. is_digit c" and d: "digit_val d = Some v"
  from dg Cons obtain w where w: "digit_val x = Some w" by (auto simp: is_digit_def)
  from dg Cons have ys: "\<forall>c \<in> set ys. is_digit c" by simp
  show ?thesis
    using w int_digits_snoc [OF ys d, of w] by (simp add: Cons int_body_def)
qed

lemma int_body_str_nat: "int_body (str_nat n) = Some n"
proof (induction n rule: str_nat.induct)
  case (1 n)
  show ?case
  proof (cases "n < 10")
    case True
    then show ?thesis
      by (simp add: str_nat.simps [of n] int_body_def digit_val_digit_char)
  next
    case False
    have d: "digit_val (digit_char (n mod 10)) = Some (n mod 10)"
      by (simp add: digit_val_digit_char)
    have "int_body (str_nat (n div 10) @ [digit_char (n mod 10)])
            = map_option (\<lambda>a. a * 10 + n mod 10) (int_body (str_nat (n div 10)))"
      by (rule int_body_snoc [OF str_nat_nonempty _ d]) (simp add: str_nat_digits)
    with False "1.IH" show ?thesis
      by (simp add: str_nat.simps [of n])
  qed
qed

lemma str_nat_inj: "str_nat m = str_nat n \<Longrightarrow> m = n"
  by (metis int_body_str_nat option.inject)

lemma not_digit_dash: "\<not> is_digit CHR ''-''"
  by (simp add: is_digit_def digit_val_def Let_def)

lemma dash_notin_str_nat: "CHR ''-'' \<notin> set (str_nat n)"
  using str_nat_digits not_digit_dash by blast

lemma digit_not_space: "is_digit c \<Longrightarrow> \<not> is_space c"
  by (auto simp: is_digit_def digit_val_def is_space_def Let_def split: if_splits)

lemma dropWhile_id: "s \<noteq> [] \<Longrightarrow> \<not> P (hd s) \<Longrightarrow> dropWhile P s = s"
  by (cases s) simp_all

lemma strip_id: "s \<noteq> [] \<Longrightarrow> \<not> is_space (hd s) \<Longrightarrow> \<not> is_space (last s) \<Longrightarrow> strip s = s"
proof -
  assume a: "s \<noteq> []" "\<not> is_space (hd s)" "\<not> is_space (last s)"
  have 1: "dropWhile is_space s = s" using a by (simp add: dropWhile_id)
  have "rev s \<noteq> []" "\<not> is_space (hd (rev s))" using a by (simp_all add: hd_rev)
  then have "dropWhile is_space (rev s) = rev s" by (rule dropWhile_id)
  with 1 show ?thesis by (simp add: strip_def)
qed

lemma strip_str_nat: "strip (str_nat n) = str_nat n"
proof (rule strip_id [OF str_nat_nonempty])
  show "\<not> is_space (hd (str_nat n))"
    using str_nat_nonempty [of n] str_nat_digits [of "hd (str_nat n)" n] digit_not_space by simp
  show "\<not> is_space (last (str_nat n))"
    using str_nat_nonempty [of n] str_nat_digits [of "last (str_nat n)" n] digit_not_space by simp
qed

lemma py_int_str_nat: "py_int (str_nat n) = Some (int n)"
proof -
  obtain c r where cr: "str_nat n = c # r"
    using str_nat_nonempty [of n] by (cases "str_nat n") auto
  then have "is_digit c" using str_nat_digits [of c n] by simp
  then have "c \<noteq> CHR ''-''" "c \<noteq> CHR ''+''"
    by (auto simp: is_digit_def digit_val_def Let_def split: if_splits)
  moreover have "int_body (c # r) = Some n" using int_body_str_nat [of n] cr by simp
  moreover have "strip (c # r) = c # r" using strip_str_nat [of n] cr by simp
  ultimately show ?thesis
    by (simp add: py_int_def cr)
qed

lemma py_int_empty: "py_int [] = None"
  by (simp add: py_int_def strip_def)

lemma split_on_no_sep: "c \<notin> set a \<Longrightarrow> split_on c a = [a]"
  by (induction a) auto

lemma split_on_sep: "c \<notin> set a \<Longrightarrow> split_on c (a @ c # r) = a # split_on c r"
proof (induction a)
  case Nil
  show ?case by simp
next
  case (Cons x a)
  then have "x \<noteq> c" and "split_on c (a @ c # r) = a # split_on c r" by auto
  then show ?case by simp
qed

lemma first_sep_unique:
  "c \<notin> set a \<Longrightarrow> c \<notin> set b \<Longrightarrow> a @ c # x = b @ c # y \<Longrightarrow> a = b \<and> x = y"
proof (induction a arbitrary: b)
  case Nil
  then show ?case by (cases b) simp_all
next
  case (Cons u a)
  show ?case
  proof (cases b)
    case Nil
    with Cons.prems show ?thesis by simp
  next
    case (Cons w b')
    with Cons.prems have "u = w" "c \<notin> set a" "c \<notin> set b'" "a @ c # x = b' @ c # y"
      by simp_all
    with Cons.IH [of b'] Cons show ?thesis by simp
  qed
qed

lemma str_nat_sep:
  assumes "str_nat m @ CHR ''-'' # x = str_nat n @ CHR ''-'' # y"
  shows "m = n \<and> x = y"
proof -
  have "str_nat m = str_nat n \<and> x = y"
    using first_sep_unique [OF dash_notin_str_nat dash_notin_str_nat assms] .
  then show ?thesis using str_nat_inj by blast
qed

lemma str_nat_hd: "\<exists>c r. str_nat n = c # r \<and> c \<noteq> CHR ''-''"
proof (cases "str_nat n")
  case Nil
  then show ?thesis using str_nat_nonempty by blast
next
  case (Cons c r)
  then have "c \<in> set (str_nat n)" by simp
  then have "c \<noteq> CHR ''-''" using dash_notin_str_nat by metis
  with Cons show ?thesis by simp
qed

lemma str_int_sep:
  assumes "str_int p @ CHR ''-'' # r = str_int q @ CHR ''-'' # r'"
  shows "p = q \<and> r = r'"
proof -
  consider (nn) "p < 0" "q < 0" | (np) "p < 0" "0 \<le> q" | (pn) "0 \<le> p" "q < 0"
    | (pp) "0 \<le> p" "0 \<le> q" by linarith
  then show ?thesis
  proof cases
    case nn
    then have "str_nat (nat (- p)) @ CHR ''-'' # r = str_nat (nat (- q)) @ CHR ''-'' # r'"
      using assms by (simp add: str_int_def)
    then have "nat (- p) = nat (- q) \<and> r = r'" by (rule str_nat_sep)
    with nn show ?thesis by linarith
  next
    case np
    obtain c z where "str_nat (nat q) = c # z" "c \<noteq> CHR ''-''" using str_nat_hd by blast
    with np assms show ?thesis by (simp add: str_int_def)
  next
    case pn
    obtain c z where "str_nat (nat p) = c # z" "c \<noteq> CHR ''-''" using str_nat_hd by blast
    with pn assms show ?thesis by (simp add: str_int_def)
  next
    case pp
    then have "str_nat (nat p) @ CHR ''-'' # r = str_nat (nat q) @ CHR ''-'' # r'"
      using assms by (simp add: str_int_def)
    then have "nat p = nat q \<and> r = r'" by (rule str_nat_sep)
    with pp show ?thesis by linarith
  qed
qed



lemma startswith_page_key:
  "startswith (page_key q m) (process_prefix p) \<longleftrightarrow> p = q"
proof
  assume "startswith (page_key q m) (process_prefix p)"
  then have "prefix (str_int p @ [CHR ''-'']) (str_int q @ CHR ''-'' # str_int m)"
    by (simp add: startswith_def page_key_def process_prefix_def)
  then obtain z where "str_int q @ CHR ''-'' # str_int m = (str_int p @ [CHR ''-'']) @ z"
    unfolding prefix_def by blast
  then have "str_int q @ CHR ''-'' # str_int m = str_int p @ CHR ''-'' # z" by simp
  then have "q = p \<and> str_int m = z" by (rule str_int_sep)
  then show "p = q" by simp
next
  assume "p = q"
  then show "startswith (page_key q m) (process_prefix p)"
    by (simp add: startswith_def page_key_def process_prefix_def)
qed

lemma page_key_nonempty: "page_key p n \<noteq> []"
  by (simp add: page_key_def)

lemma split_page_key:
  "0 \<le> p \<Longrightarrow> split_on CHR ''-'' (page_key p n) =
     (CHR ''P'' # str_nat (nat p)) #
       (if n < 0 then [[], str_nat (nat (- n))] else [str_nat (nat n)])"
proof -
  assume p: "0 \<le> p"
  have "CHR ''-'' \<notin> set (CHR ''P'' # str_nat (nat p))"
    using dash_notin_str_nat by simp
  from split_on_sep [OF this, of "str_int n"] p
  have "split_on CHR ''-'' (page_key p n) = (CHR ''P'' # str_nat (nat p)) # split_on CHR ''-'' (str_int n)"
    by (simp add: page_key_def str_int_def)
  moreover have "split_on CHR ''-'' (str_int n) = (if n < 0 then [[], str_nat (nat (- n))] else [str_nat (nat n)])"
    using split_on_no_sep [OF dash_notin_str_nat] by (simp add: str_int_def)
  ultimately show ?thesis by simp
qed

section \<open>What each operation leaves alone\<close>

lemma add_log_fields [simp]:
  "memory_size (add_log t m s) = memory_size s"
  "memory (add_log t m s) = memory s"
  "page_table (add_log t m s) = page_table s"
  "processes (add_log t m s) = processes s"
  "process_counter (add_log t m s) = process_counter s"
  "allocation_queue (add_log t m s) = allocation_queue s"
  "stats (add_log t m s) = stats s"
  by (simp_all add: add_log_def Let_def)

lemma count_fault_fields [simp]:
  "memory_size (count_fault s) = memory_size s"
  "memory (count_fault s) = memory s"
  "page_table (count_fault s) = page_table s"
  "processes (count_fault s) = processes s"
  "process_counter (count_fault s) = process_counter s"
  "allocation_queue (count_fault s) = allocation_queue s"
  "logs (count_fault s) = logs s"
  by (simp_all add: count_fault_def)

lemma page_hit_fields [simp]:
  "memory_size (page_hit tn tg p n s) = memory_size s"
  "memory (page_hit tn tg p n s) = memory s"
  "processes (page_hit tn tg p n s) = processes s"
  "process_counter (page_hit tn tg p n s) = process_counter s"
  "allocation_queue (page_hit tn tg p n s) = allocation_queue s"
  "page_table (page_hit tn tg p n s) =
     AList.map_entry (page_key p n) (\<lambda>e. e\<lparr>last_used := tn\<rparr>) (page_table s)"
  by (simp_all add: page_hit_def Let_def)

lemma evict_victim_fields [simp]:
  "memory_size (snd (evict_victim te f a s)) = memory_size s"
  "memory (snd (evict_victim te f a s)) = memory s"
  "processes (snd (evict_victim te f a s)) = processes s"
  "process_counter (snd (evict_victim te f a s)) = process_counter s"
  "stats (snd (evict_victim te f a s)) = stats s"
  by (simp_all add: evict_victim_def Let_def split: option.split list.split)

lemma evict_victim_error:
  "evict_victim te f a s = (Some e, s') \<Longrightarrow>
     (e = ValueError \<or> e = IndexError) \<and> page_table s' = page_table s
       \<and> allocation_queue s' = allocation_queue s"
  by (auto simp: evict_victim_def Let_def split: option.splits list.splits if_splits)

lemma evict_victim_error_state:
  "evict_victim te f a s = (Some e, s') \<Longrightarrow> f \<in> set (allocation_queue s) \<or> a \<noteq> ''fifo'' \<Longrightarrow> s' = s"
  by (auto simp: evict_victim_def Let_def split: option.splits list.splits if_splits)

lemma evict_victim_ok:
  "evict_victim te f a s = (None, s') \<Longrightarrow>
     (s' = s \<and> (find_victim_key f (page_table s) = None
                  \<or> find_victim_key f (page_table s) = Some []))
     \<or> (\<exists>k msg. find_victim_key f (page_table s) = Some k \<and> k \<noteq> []
           \<and> s' = (if a = ''fifo''
                 then (add_log te msg s)\<lparr>allocation_queue := remove1 f (allocation_queue s),
                        page_table := AList.delete k (page_table s)\<rparr>
                 else (add_log te msg s)\<lparr>page_table := AList.delete k (page_table s)\<rparr>))"
  by (auto simp: evict_victim_def Let_def split: option.splits list.splits if_splits)

lemma place_page_error:
  "place_page tn tg p n a f s = (Inl e, s') \<Longrightarrow> (e = KeyError \<or> e = IndexError) \<and> s' = s"
  by (auto simp: place_page_def Let_def split: option.splits)

lemma place_page_fields [simp]:
  "memory_size (snd (place_page tn tg p n a f s)) = memory_size s"
  "processes (snd (place_page tn tg p n a f s)) = processes s"
  "process_counter (snd (place_page tn tg p n a f s)) = process_counter s"
  "stats (snd (place_page tn tg p n a f s)) = stats s"
  by (simp_all add: place_page_def Let_def split: option.split)

lemma page_fault_cases:
  assumes "page_fault te tn tg p n a s = (r, s')"
  shows "(find_free_frame s \<noteq> - 1 \<and> place_page tn tg p n a (find_free_frame s) s = (r, s'))
    \<or> (find_free_frame s = - 1 \<and> select_victim a s = - 1 \<and> r = Inl NoFramesAvailable \<and> s' = s)
    \<or> (find_free_frame s = - 1 \<and> select_victim a s \<noteq> - 1
         \<and> (\<exists>e. evict_victim te (select_victim a s) a s = (Some e, s') \<and> r = Inl e))
    \<or> (find_free_frame s = - 1 \<and> select_victim a s \<noteq> - 1
         \<and> (\<exists>s2. evict_victim te (select_victim a s) a s = (None, s2)
                \<and> place_page tn tg p n a (select_victim a s) s2 = (r, s')))"
proof (cases "find_free_frame s = - 1")
  case False
  with assms show ?thesis by (simp add: page_fault_def)
next
  case True
  note ff = this
  show ?thesis
  proof (cases "select_victim a s = - 1")
    case True
    with ff assms show ?thesis by (simp add: page_fault_def)
  next
    case False
    obtain x s2 where ev: "evict_victim te (select_victim a s) a s = (x, s2)"
      by (cases "evict_victim te (select_victim a s) a s") auto
    show ?thesis
    proof (cases x)
      case None
      with ff False ev assms show ?thesis by (simp add: page_fault_def)
    next
      case (Some e)
      with ff False ev assms show ?thesis by (simp add: page_fault_def)
    qed
  qed
qed

lemma page_fault_fields [simp]:
  "memory_size (snd (page_fault te tn tg p n a s)) = memory_size s"
  "processes (snd (page_fault te tn tg p n a s)) = processes s"
  "process_counter (snd (page_fault te tn tg p n a s)) = process_counter s"
  "stats (snd (page_fault te tn tg p n a s)) = stats s"
proof -
  obtain r s' where rs: "page_fault te tn tg p n a s = (r, s')"
    by (cases "page_fault te tn tg p n a s") auto
  have ev: "\<And>x s2 v. evict_victim te v a s = (x, s2) \<Longrightarrow>
      memory_size s2 = memory_size s \<and> processes s2 = processes s
      \<and> process_counter s2 = process_counter s \<and> stats s2 = stats s"
  proof -
    fix x s2 v assume "evict_victim te v a s = (x, s2)"
    then have "s2 = snd (evict_victim te v a s)" by simp
    then show "memory_size s2 = memory_size s \<and> processes s2 = processes s
      \<and> process_counter s2 = process_counter s \<and> stats s2 = stats s" by simp
  qed
  have pl: "\<And>f s2. place_page tn tg p n a f s2 = (r, s') \<Longrightarrow>
      memory_size s' = memory_size s2 \<and> processes s' = processes s2
      \<and> process_counter s' = process_counter s2 \<and> stats s' = stats s2"
  proof -
    fix f s2 assume "place_page tn tg p n a f s2 = (r, s')"
    then have "s' = snd (place_page tn tg p n a f s2)" by simp
    then show "memory_size s' = memory_size s2 \<and> processes s' = processes s2
      \<and> process_counter s' = process_counter s2 \<and> stats s' = stats s2" by simp
  qed
  have "memory_size s' = memory_size s \<and> processes s' = processes s
      \<and> process_counter s' = process_counter s \<and> stats s' = stats s"
    using page_fault_cases [OF rs] ev pl by metis
  with rs show "memory_size (snd (page_fault te tn tg p n a s)) = memory_size s"
    "processes (snd (page_fault te tn tg p n a s)) = processes s"
    "process_counter (snd (page_fault te tn tg p n a s)) = process_counter s"
    "stats (snd (page_fault te tn tg p n a s)) = stats s" by simp_all
qed

lemma allocate_page_fields [simp]:
  "memory_size (snd (allocate_page te tn tg p n a s)) = memory_size s"
  "processes (snd (allocate_page te tn tg p n a s)) = processes s"
  "process_counter (snd (allocate_page te tn tg p n a s)) = process_counter s"
  by (simp_all add: allocate_page_def)

lemma free_frame_length: "length (fst (free_frame p i mq)) = length (fst mq)"
  by (simp add: free_frame_def split: option.split)

lemma fold_free_frame_length: "length (fst (fold (free_frame p) is mq)) = length (fst mq)"
  by (induction "is" arbitrary: mq) (simp_all add: free_frame_length)

lemma remove_process_fields [simp]:
  "memory_size (snd (remove_process t p s)) = memory_size s"
  "process_counter (snd (remove_process t p s)) = process_counter s"
  "stats (snd (remove_process t p s)) = stats s"
  by (simp_all add: remove_process_def Let_def)

lemma create_process_fields [simp]:
  "memory_size (snd (create_process t sz s)) = memory_size s"
  "memory (snd (create_process t sz s)) = memory s"
  "page_table (snd (create_process t sz s)) = page_table s"
  "allocation_queue (snd (create_process t sz s)) = allocation_queue s"
  "stats (snd (create_process t sz s)) = stats s"
  by (simp_all add: create_process_def Let_def)

lemma step_memory_size: "memory_size (step op s) = memory_size s"
  by (cases op) (simp_all add: reset_def MemoryManager_def)

lemma run_memory_size: "memory_size (run ops s) = memory_size s"
  unfolding run_def by (induction ops arbitrary: s) (simp_all add: step_memory_size)

section \<open>Reset\<close>

text \<open>
  C8. After any run of operations on a manager constructed with frame count \<open>n\<close>,
  \<^verbatim>\<open>reset()\<close> yields exactly the state of a freshly constructed manager with the same
  frame count: the snapshot is the same, every later run of operations behaves the same,
  and processes, frames, page table, queue, statistics and log are all empty again.
\<close>

theorem reset_equals_fresh:
  "reset (run ops (MemoryManager n)) = MemoryManager n
   \<and> get_state (reset (run ops (MemoryManager n))) = get_state (MemoryManager n)
   \<and> run ops' (reset (run ops (MemoryManager n))) = run ops' (MemoryManager n)
   \<and> processes (reset (run ops (MemoryManager n))) = []
   \<and> memory (reset (run ops (MemoryManager n))) = replicate (nat n) None
   \<and> page_table (reset (run ops (MemoryManager n))) = []
   \<and> allocation_queue (reset (run ops (MemoryManager n))) = []
   \<and> stats (reset (run ops (MemoryManager n))) = \<lparr>page_faults = 0, page_hits = 0\<rparr>
   \<and> logs (reset (run ops (MemoryManager n))) = []"
proof -
  have "memory_size (run ops (MemoryManager n)) = n"
    using run_memory_size [of ops "MemoryManager n"] by (simp add: MemoryManager_def)
  then have "reset (run ops (MemoryManager n)) = MemoryManager n"
    by (simp add: reset_def)
  then show ?thesis by (simp add: MemoryManager_def)
qed

section \<open>Errors and the state\<close>

lemma page_fault_error:
  assumes "page_fault te tn tg p n a s = (Inl e, s')"
  shows "e \<noteq> ProcessNotFound \<and> (e = NoFramesAvailable \<longrightarrow> s' = s)"
proof -
  have pl: "\<And>f s2 x. place_page tn tg p n a f s2 = (Inl x, s') \<Longrightarrow> x = KeyError \<or> x = IndexError"
    using place_page_error by blast
  have ev: "\<And>f x. evict_victim te f a s = (Some x, s') \<Longrightarrow> x = ValueError \<or> x = IndexError"
    using evict_victim_error by blast
  from page_fault_cases [OF assms] show ?thesis
    by (auto dest: pl ev)
qed

text \<open>
  C1, as stated, fails: on a one-frame manager whose frame was filled under LRU (the FIFO
  queue is then empty), a FIFO access to a page that is not resident returns
  \<^verbatim>\<open>'No frames available'\<close>, and the page-fault counter has gone from 1 to 2.
\<close>

theorem no_frames_counts_fault_counterexample:
  "fst (allocate_page 5 6 7 1 1 ''fifo''
          (run [CreateProcess 1 2, AccessPage 2 3 4 1 0 ''lru''] (MemoryManager 1)))
     = Inl NoFramesAvailable
   \<and> page_faults (stats (run [CreateProcess 1 2, AccessPage 2 3 4 1 0 ''lru''] (MemoryManager 1))) = 1
   \<and> page_faults (stats (snd (allocate_page 5 6 7 1 1 ''fifo''
          (run [CreateProcess 1 2, AccessPage 2 3 4 1 0 ''lru''] (MemoryManager 1))))) = 2"
  by code_simp

text \<open>
  C1, amended. \<^verbatim>\<open>allocate_page\<close> returning \<open>ProcessNotFound\<close> leaves the whole state as
  it was; \<^verbatim>\<open>remove_process\<close> returns no error but \<open>ProcessNotFound\<close>, and then leaves
  the whole state as it was; \<^verbatim>\<open>allocate_page\<close> returning \<open>NoFramesAvailable\<close> leaves the
  state as it was except that the page-fault counter has been incremented by one (line 78
  counts the fault before a frame is looked for).
\<close>

theorem errors_leave_state:
  "(allocate_page te tn tg p n a s = (Inl ProcessNotFound, s') \<longrightarrow> s' = s)
   \<and> (remove_process t p s = (Inl e, s') \<longrightarrow> e = ProcessNotFound \<and> s' = s)
   \<and> (allocate_page te tn tg p n a s = (Inl NoFramesAvailable, s') \<longrightarrow>
        s' = s\<lparr>stats := (stats s)\<lparr>page_faults := page_faults (stats s) + 1\<rparr>\<rparr>)"
proof (intro conjI impI)
  assume a: "allocate_page te tn tg p n a s = (Inl ProcessNotFound, s')"
  show "s' = s"
  proof (cases "dict_in p (processes s)")
    case False
    with a show ?thesis by (simp add: allocate_page_def)
  next
    case True
    with a have "page_fault te tn tg p n a (count_fault s) = (Inl ProcessNotFound, s')"
      by (simp add: allocate_page_def split: if_splits)
    from page_fault_error [OF this] show ?thesis by simp
  qed
next
  assume "remove_process t p s = (Inl e, s')"
  then show "e = ProcessNotFound" "s' = s"
    by (simp_all add: remove_process_def Let_def split: if_splits)
next
  assume a: "allocate_page te tn tg p n a s = (Inl NoFramesAvailable, s')"
  then have "page_fault te tn tg p n a (count_fault s) = (Inl NoFramesAvailable, s')"
    by (simp add: allocate_page_def split: if_splits)
  from page_fault_error [OF this]
  show "s' = s\<lparr>stats := (stats s)\<lparr>page_faults := page_faults (stats s) + 1\<rparr>\<rparr>"
    by (simp add: count_fault_def)
qed

text \<open>The three cases of C1 (amended) at concrete calls.\<close>

theorem errors_leave_state_witness:
  "allocate_page 1 2 3 7 0 ''fifo'' (MemoryManager 1) = (Inl ProcessNotFound, MemoryManager 1)
   \<and> remove_process 9 7 (MemoryManager 1) = (Inl ProcessNotFound, MemoryManager 1)
   \<and> allocate_page 5 6 7 1 1 ''fifo''
         (run [CreateProcess 1 2, AccessPage 2 3 4 1 0 ''lru''] (MemoryManager 1))
       = (Inl NoFramesAvailable,
          (run [CreateProcess 1 2, AccessPage 2 3 4 1 0 ''lru''] (MemoryManager 1))
            \<lparr>stats := \<lparr>page_faults = 2, page_hits = 0\<rparr>\<rparr>)"
proof -
  let ?s = "run [CreateProcess 1 2, AccessPage 2 3 4 1 0 ''lru''] (MemoryManager 1)"
  have 1: "fst (allocate_page 1 2 3 7 0 ''fifo'' (MemoryManager 1)) = Inl ProcessNotFound"
    by code_simp
  have 2: "fst (remove_process 9 7 (MemoryManager 1)) = Inl ProcessNotFound"
    by code_simp
  have 3: "fst (allocate_page 5 6 7 1 1 ''fifo'' ?s) = Inl NoFramesAvailable"
    by code_simp
  have st: "stats ?s = \<lparr>page_faults = 1, page_hits = 0\<rparr>"
    by code_simp
  have a: "allocate_page 1 2 3 7 0 ''fifo'' (MemoryManager 1)
      = (Inl ProcessNotFound, snd (allocate_page 1 2 3 7 0 ''fifo'' (MemoryManager 1)))"
    using 1 by (metis prod.collapse)
  have b: "remove_process 9 7 (MemoryManager 1)
      = (Inl ProcessNotFound, snd (remove_process 9 7 (MemoryManager 1)))"
    using 2 by (metis prod.collapse)
  have c: "allocate_page 5 6 7 1 1 ''fifo'' ?s
      = (Inl NoFramesAvailable, snd (allocate_page 5 6 7 1 1 ''fifo'' ?s))"
    using 3 by (metis prod.collapse)
  have "snd (allocate_page 1 2 3 7 0 ''fifo'' (MemoryManager 1)) = MemoryManager 1"
    using errors_leave_state [of 1 2 3 7 0 "''fifo''" "MemoryManager 1"] a by blast
  moreover have "snd (remove_process 9 7 (MemoryManager 1)) = MemoryManager 1"
    using errors_leave_state [of _ _ _ 7 _ _ "MemoryManager 1" _ 9] b by blast
  moreover have "snd (allocate_page 5 6 7 1 1 ''fifo'' ?s)
      = ?s\<lparr>stats := (stats ?s)\<lparr>page_faults := page_faults (stats ?s) + 1\<rparr>\<rparr>"
    using errors_leave_state [of 5 6 7 1 1 "''fifo''" ?s] c by blast
  ultimately show ?thesis using a b c st by simp
qed

section \<open>Two accesses in a row\<close>

lemma place_page_ok:
  assumes "place_page tn tg p n a f s = (Inr b, s')"
  shows "\<not> b \<and> dict_in (page_key p n) (page_table s')"
proof -
  from assms obtain proc i where "map_of (processes s) p = Some proc"
    and "py_index (length (memory s)) f = Some i"
    by (auto simp: place_page_def split: option.splits)
  with assms show ?thesis
    by (auto simp: place_page_def Let_def dict_in_def AList.dom_update)
qed

lemma page_fault_ok:
  assumes "page_fault te tn tg p n a s = (Inr b, s')"
  shows "\<not> b \<and> dict_in (page_key p n) (page_table s')"
  using page_fault_cases [OF assms] place_page_ok by blast

lemma allocate_page_ok:
  assumes "allocate_page te tn tg p n a s = (Inr b, s')"
  shows "dict_in p (processes s') \<and> dict_in (page_key p n) (page_table s')"
proof -
  have proc: "processes s' = processes s"
    using allocate_page_fields(2) [of te tn tg p n a s] assms by simp
  from assms have p: "dict_in p (processes s)"
    by (auto simp: allocate_page_def split: if_splits)
  show ?thesis
  proof (cases "dict_in (page_key p n) (page_table s)")
    case True
    with p assms have "s' = page_hit tn tg p n s" by (simp add: allocate_page_def)
    with True p proc show ?thesis
      by (simp add: dict_in_def AList.dom_map_entry)
  next
    case False
    with p assms have "page_fault te tn tg p n a (count_fault s) = (Inr b, s')"
      by (simp add: allocate_page_def)
    from page_fault_ok [OF this] p proc show ?thesis by simp
  qed
qed

text \<open>
  C6. In every state, for every existing process \<open>p\<close> and every page number \<open>n\<close>: if
  \<^verbatim>\<open>allocate_page(p, n, a)\<close> succeeds (as a hit or as a fault), then the same access
  made immediately afterwards returns a hit, whatever the clock readings.
\<close>

theorem second_access_hits:
  assumes "dict_in p (processes s)"
    and "allocate_page te tn tg p n a s = (Inr b, s')"
  shows "fst (allocate_page te' tn' tg' p n a s') = Inr True"
  using allocate_page_ok [OF assms(2)] by (simp add: allocate_page_def)

text \<open>C6 at a concrete first access that faults.\<close>

theorem second_access_hits_witness:
  "dict_in 1 (processes (snd (create_process 0 2 (MemoryManager 1))))
   \<and> fst (allocate_page 1 2 3 1 0 ''fifo'' (snd (create_process 0 2 (MemoryManager 1)))) = Inr False
   \<and> fst (allocate_page 4 5 6 1 0 ''fifo''
        (snd (allocate_page 1 2 3 1 0 ''fifo'' (snd (create_process 0 2 (MemoryManager 1)))))) = Inr True"
proof -
  have d: "dict_in 1 (processes (snd (create_process 0 2 (MemoryManager 1))))"
    by code_simp
  have f: "fst (allocate_page 1 2 3 1 0 ''fifo'' (snd (create_process 0 2 (MemoryManager 1)))) = Inr False"
    by code_simp
  then have e: "allocate_page 1 2 3 1 0 ''fifo'' (snd (create_process 0 2 (MemoryManager 1)))
      = (Inr False, snd (allocate_page 1 2 3 1 0 ''fifo'' (snd (create_process 0 2 (MemoryManager 1)))))"
    by (metis prod.collapse)
  from second_access_hits [OF d e, of 4 5 6] d f show ?thesis by simp
qed

section \<open>Process descriptors\<close>

lemma set_update_subset: "set (AList.update k v al) \<subseteq> insert (k, v) (set al)"
  by (induction al) auto

lemma set_delete_subset: "set (AList.delete k al) \<subseteq> set al"
  by (auto simp: AList.delete_eq)

lemma nonresident_create: "nonresident s \<Longrightarrow> nonresident (snd (create_process t sz s))"
proof -
  assume a: "nonresident s"
  let ?proc = "\<lparr>pid = process_counter s, psize = sz,
                 pages = map (\<lambda>i. \<lparr>page_num = i, frame_num = None\<rparr>) [0..sz - 1],
                 color = process_color (process_counter s)\<rparr>"
  have "processes (snd (create_process t sz s)) = AList.update (process_counter s) ?proc (processes s)"
    by (simp add: create_process_def Let_def)
  then have "set (processes (snd (create_process t sz s))) \<subseteq> insert (process_counter s, ?proc) (set (processes s))"
    using set_update_subset by metis
  moreover have "\<forall>pg \<in> set (pages ?proc). frame_num pg = None" by auto
  ultimately show ?thesis using a unfolding nonresident_def by fastforce
qed

lemma nonresident_remove: "nonresident s \<Longrightarrow> nonresident (snd (remove_process t p s))"
proof -
  assume a: "nonresident s"
  have "set (processes (snd (remove_process t p s))) \<subseteq> set (processes s)"
    using set_delete_subset [of p "processes s"] by (simp add: remove_process_def Let_def)
  with a show ?thesis unfolding nonresident_def by fastforce
qed

lemma nonresident_step: "nonresident s \<Longrightarrow> nonresident (step op s)"
proof (cases op)
  case (CreateProcess t sz)
  assume "nonresident s"
  with CreateProcess show ?thesis by (simp add: nonresident_create)
next
  case (AccessPage te tn tg p n a)
  assume "nonresident s"
  with AccessPage show ?thesis by (simp add: nonresident_def)
next
  case (RemoveProcess t p)
  assume "nonresident s"
  with RemoveProcess show ?thesis by (simp add: nonresident_remove)
next
  case GetState
  assume "nonresident s"
  with GetState show ?thesis by simp
next
  case Reset
  then show ?thesis by (simp add: nonresident_def reset_def MemoryManager_def)
qed

lemma nonresident_run: "nonresident s \<Longrightarrow> nonresident (run ops s)"
  unfolding run_def by (induction ops arbitrary: s) (simp_all add: nonresident_step)

text \<open>
  C10. After every run of operations on a fresh manager, every page descriptor in every
  process descriptor has \<^verbatim>\<open>frame_num = None\<close>, in the manager's process table and in the
  snapshot returned by \<^verbatim>\<open>get_state\<close>: accesses, evictions and removals never write it.
\<close>

theorem descriptors_never_resident:
  "(\<forall>proc \<in> snd ` set (processes (run ops (MemoryManager n))).
      \<forall>pg \<in> set (pages proc). frame_num pg = None)
   \<and> (\<forall>proc \<in> set (v_processes (get_state (run ops (MemoryManager n)))).
      \<forall>pg \<in> set (pages proc). frame_num pg = None)"
proof -
  have "nonresident (MemoryManager n)" by (simp add: nonresident_def MemoryManager_def)
  then have "nonresident (run ops (MemoryManager n))" by (rule nonresident_run)
  then show ?thesis by (simp add: nonresident_def get_state_def)
qed

text \<open>
  C10 on a run with two faults and an eviction: the descriptors still name no frame
  while frame 0 holds page 1 of process 1.
\<close>

theorem descriptors_never_resident_witness:
  "map (\<lambda>proc. map page_num (pages proc))
       (v_processes (get_state (run [CreateProcess 1 2, AccessPage 2 3 4 1 0 ''fifo'',
           AccessPage 5 6 7 1 1 ''fifo'', CreateProcess 8 3] (MemoryManager 1)))) = [[0, 1], [0, 1, 2]]
   \<and> list_all (\<lambda>proc. list_all (\<lambda>pg. frame_num pg = None) (pages proc))
       (v_processes (get_state (run [CreateProcess 1 2, AccessPage 2 3 4 1 0 ''fifo'',
           AccessPage 5 6 7 1 1 ''fifo'', CreateProcess 8 3] (MemoryManager 1))))
   \<and> memory (run [CreateProcess 1 2, AccessPage 2 3 4 1 0 ''fifo'',
           AccessPage 5 6 7 1 1 ''fifo'', CreateProcess 8 3] (MemoryManager 1))
       = [Some \<lparr>f_pid = 1, f_page_num = 1, f_color = ''hsl(137, 70%, 60%)''\<rparr>]"
proof -
  let ?s = "run [CreateProcess 1 2, AccessPage 2 3 4 1 0 ''fifo'',
           AccessPage 5 6 7 1 1 ''fifo'', CreateProcess 8 3] (MemoryManager 1)"
  have 1: "map (\<lambda>proc. map page_num (pages proc)) (v_processes (get_state ?s)) = [[0, 1], [0, 1, 2]]"
    by code_simp
  have 2: "memory ?s = [Some \<lparr>f_pid = 1, f_page_num = 1, f_color = ''hsl(137, 70%, 60%)''\<rparr>]"
    by code_simp
  have "\<forall>proc \<in> set (v_processes (get_state ?s)). \<forall>pg \<in> set (pages proc). frame_num pg = None"
    using descriptors_never_resident [of "[CreateProcess 1 2, AccessPage 2 3 4 1 0 ''fifo'',
           AccessPage 5 6 7 1 1 ''fifo'', CreateProcess 8 3]" 1] by blast
  then have "list_all (\<lambda>proc. list_all (\<lambda>pg. frame_num pg = None) (pages proc)) (v_processes (get_state ?s))"
    by (simp add: list_all_iff)
  with 1 2 show ?thesis by blast
qed

section \<open>Frames in use and the page table\<close>

lemma occupied_fst: "fst ` occupied mem = {i. i < length mem \<and> mem ! i \<noteq> None}"
  by (auto simp: occupied_def image_iff)

lemma occupied_unique: "(i, k) \<in> occupied mem \<Longrightarrow> (i, k') \<in> occupied mem \<Longrightarrow> k = k'"
  by (auto simp: occupied_def)

lemma occupied_set:
  "i < length mem \<Longrightarrow>
   occupied (mem[i := Some fr])
     = insert (i, page_key (f_pid fr) (f_page_num fr)) {jk \<in> occupied mem. fst jk \<noteq> i}"
  by (auto simp: occupied_def nth_list_update)

lemma occupied_free: "i < length mem \<Longrightarrow> mem ! i = None \<Longrightarrow> {jk \<in> occupied mem. fst jk \<noteq> i} = occupied mem"
  by (auto simp: occupied_def)

lemma set_update_new: "k \<notin> fst ` set al \<Longrightarrow> set (AList.update k v al) = insert (k, v) (set al)"
  by (induction al) auto

lemma resident_update:
  "k \<notin> fst ` set pt \<Longrightarrow>
   resident (AList.update k e pt) = insert (nat (e_frame_num e), k) (resident pt)"
  by (simp add: resident_def set_update_new)

lemma resident_delete: "resident (AList.delete k pt) = {jk \<in> resident pt. snd jk \<noteq> k}"
  by (auto simp: resident_def AList.delete_eq)

lemma resident_Cons:
  "resident (ke # pt) = insert (nat (e_frame_num (snd ke)), fst ke) (resident pt)"
  by (simp add: resident_def)

lemma resident_map_entry:
  "resident (AList.map_entry k (\<lambda>e. e\<lparr>last_used := t\<rparr>) pt) = resident pt"
  by (induction pt) (simp_all add: resident_Cons)

lemma resident_unique:
  "distinct (map fst pt) \<Longrightarrow> (i, k) \<in> resident pt \<Longrightarrow> (j, k) \<in> resident pt \<Longrightarrow> i = j"
  by (auto simp: resident_def dest: eq_key_imp_eq_value)

lemma find_victim_key_Some:
  "find_victim_key v pt = Some k \<Longrightarrow> \<exists>e. (k, e) \<in> set pt \<and> e_frame_num e = v"
  by (induction pt) (auto split: if_splits)

lemma find_victim_key_None:
  "find_victim_key v pt = None \<Longrightarrow> \<forall>ke \<in> set pt. e_frame_num (snd ke) \<noteq> v"
  by (induction pt) (auto split: if_splits)

lemma find_free_from_none: "find_free_from i mem = - 1 \<Longrightarrow> None \<notin> set mem"
  by (induction mem arbitrary: i) (auto split: if_splits)

lemma find_free_from_some:
  "find_free_from i mem \<noteq> - 1 \<Longrightarrow>
   \<exists>j < length mem. find_free_from i mem = int (i + j) \<and> mem ! j = None \<and> (\<forall>l < j. mem ! l \<noteq> None)"
proof (induction mem arbitrary: i)
  case Nil
  then show ?case by simp
next
  case (Cons f fs)
  show ?case
  proof (cases "f = None")
    case True
    then show ?thesis by (intro exI [of _ 0]) simp
  next
    case False
    with Cons.prems have "find_free_from (Suc i) fs \<noteq> - 1" by simp
    from Cons.IH [OF this] obtain j where j: "j < length fs"
      "find_free_from (Suc i) fs = int (Suc i + j)" "fs ! j = None" "\<forall>l < j. fs ! l \<noteq> None"
      by blast
    show ?thesis
    proof (intro exI [of _ "Suc j"] conjI allI impI)
      show "Suc j < length (f # fs)" using j by simp
      show "find_free_from i (f # fs) = int (i + Suc j)" using j False by simp
      show "(f # fs) ! Suc j = None" using j by simp
      fix l assume "l < Suc j"
      then show "(f # fs) ! l \<noteq> None" using j False by (cases l) auto
    qed
  qed
qed

lemma find_free_frame_full: "find_free_frame s = - 1 \<Longrightarrow> None \<notin> set (memory s)"
  unfolding find_free_frame_def by (rule find_free_from_none)

lemma find_free_frame_free:
  "find_free_frame s \<noteq> - 1 \<Longrightarrow>
   0 \<le> find_free_frame s \<and> nat (find_free_frame s) < length (memory s)
   \<and> memory s ! nat (find_free_frame s) = None
   \<and> (\<forall>l < nat (find_free_frame s). memory s ! l \<noteq> None)"
  unfolding find_free_frame_def using find_free_from_some [of 0 "memory s"] by auto

lemma lru_scan_victim:
  "lru_scan pt oldest v = v \<or> (\<exists>ke \<in> set pt. e_frame_num (snd ke) = lru_scan pt oldest v)"
proof (induction pt arbitrary: oldest v)
  case Nil
  show ?case by simp
next
  case (Cons ke pt)
  show ?case
  proof (cases "case oldest of None \<Rightarrow> True | Some t \<Rightarrow> last_used (snd ke) < t")
    case True
    with Cons [of "Some (last_used (snd ke))" "e_frame_num (snd ke)"] show ?thesis by auto
  next
    case False
    with Cons [of oldest v] show ?thesis by auto
  qed
qed

section \<open>Consistency is kept by a page fault\<close>

lemma consistent_cong:
  "memory s' = memory s \<Longrightarrow> page_table s' = page_table s
   \<Longrightarrow> allocation_queue s' = allocation_queue s \<Longrightarrow> consistent s' = consistent s"
  by (simp add: consistent_def)

lemma place_page_state:
  assumes "place_page tn tg p n a f s = (Inr b, s')"
  shows "\<exists>i (proc :: process). py_index (length (memory s)) f = Some i
      \<and> memory s' = (memory s)[i := Some \<lparr>f_pid = p, f_page_num = n, f_color = color proc\<rparr>]
      \<and> page_table s' = AList.update (page_key p n)
            \<lparr>e_frame_num = f, alloc_time = tn, last_used = tn\<rparr> (page_table s)
      \<and> allocation_queue s' = (if a = ''fifo'' then allocation_queue s @ [f] else allocation_queue s)"
proof -
  from assms obtain proc i where "map_of (processes s) p = Some proc"
    and "py_index (length (memory s)) f = Some i"
    by (auto simp: place_page_def split: option.splits)
  with assms have "py_index (length (memory s)) f = Some i
      \<and> memory s' = (memory s)[i := Some \<lparr>f_pid = p, f_page_num = n, f_color = color proc\<rparr>]
      \<and> page_table s' = AList.update (page_key p n)
            \<lparr>e_frame_num = f, alloc_time = tn, last_used = tn\<rparr> (page_table s)
      \<and> allocation_queue s' = (if a = ''fifo'' then allocation_queue s @ [f] else allocation_queue s)"
    by (auto simp: place_page_def Let_def)
  then show ?thesis by blast
qed

lemma py_index_valid: "0 \<le> f \<Longrightarrow> nat f < n \<Longrightarrow> py_index n f = Some (nat f)"
  by (simp add: py_index_def)

text \<open>Placing a page into a free frame.\<close>

lemma consistent_place_free:
  assumes c: "consistent s"
    and f: "0 \<le> f" "nat f < length (memory s)" "memory s ! nat f = None"
    and k: "\<not> dict_in (page_key p n) (page_table s)"
    and pl: "place_page tn tg p n a f s = (Inr b, s')"
  shows "consistent s'"
proof -
  from place_page_state [OF pl] f py_index_valid [OF f(1,2)] obtain proc :: process where
    mem: "memory s' = (memory s)[nat f := Some \<lparr>f_pid = p, f_page_num = n, f_color = color proc\<rparr>]"
    and pt: "page_table s' = AList.update (page_key p n)
            \<lparr>e_frame_num = f, alloc_time = tn, last_used = tn\<rparr> (page_table s)"
    and q: "allocation_queue s' = (if a = ''fifo'' then allocation_queue s @ [f] else allocation_queue s)"
    by auto
  from k have knew: "page_key p n \<notin> fst ` set (page_table s)" by (simp add: dict_in_def)
  have occ: "occupied (memory s') = insert (nat f, page_key p n) (occupied (memory s))"
    using f by (simp add: mem occupied_set occupied_free)
  have res: "resident (page_table s') = insert (nat f, page_key p n) (resident (page_table s))"
    using knew by (simp add: pt resident_update)
  have notocc: "nat f \<notin> fst ` occupied (memory s)"
    using f by (simp add: occupied_fst)
  have 1: "distinct (map fst (page_table s'))"
    using c by (simp add: pt consistent_def AList.distinct_update)
  have 2: "\<forall>ke \<in> set (page_table s'). 0 \<le> e_frame_num (snd ke)"
    using c f knew by (auto simp: pt consistent_def set_update_new)
  have 3: "resident (page_table s') = occupied (memory s')"
    using c by (simp add: occ res consistent_def)
  have fq: "f \<notin> set (allocation_queue s)"
  proof
    assume "f \<in> set (allocation_queue s)"
    with c have "nat f \<in> fst ` occupied (memory s)" by (simp add: consistent_def)
    with notocc show False by simp
  qed
  have 4: "distinct (allocation_queue s')"
    using c fq by (simp add: q consistent_def)
  have 5: "\<forall>g \<in> set (allocation_queue s'). 0 \<le> g \<and> nat g \<in> fst ` occupied (memory s')"
    using c f by (auto simp: q occ consistent_def)
  from 1 2 3 4 5 show ?thesis by (simp add: consistent_def)
qed

text \<open>Evicting the page of frame \<open>v\<close> and placing a page there.\<close>

lemma consistent_replace:
  assumes c: "consistent s"
    and v: "0 \<le> v" "(nat v, k) \<in> occupied (memory s)"
    and key: "page_key p n \<notin> fst ` set (page_table s)"
    and mem: "memory s' = (memory s)[nat v := Some \<lparr>f_pid = p, f_page_num = n, f_color = col\<rparr>]"
    and pt: "page_table s' = AList.update (page_key p n)
            \<lparr>e_frame_num = v, alloc_time = tn, last_used = tn\<rparr> (AList.delete k (page_table s))"
    and q: "allocation_queue s' = allocation_queue s
            \<or> allocation_queue s' = remove1 v (allocation_queue s) @ [v]"
  shows "consistent s'"
proof -
  from c have ro: "resident (page_table s) = occupied (memory s)"
    and dk: "distinct (map fst (page_table s))" by (simp_all add: consistent_def)
  from v have vlen: "nat v < length (memory s)" by (auto simp: occupied_def)
  have keydel: "page_key p n \<notin> fst ` set (AList.delete k (page_table s))"
    using key by (auto simp: AList.delete_eq)
  have same: "{jk \<in> occupied (memory s). snd jk \<noteq> k} = {jk \<in> occupied (memory s). fst jk \<noteq> nat v}"
  proof (rule set_eqI)
    fix jk :: "nat \<times> string"
    obtain j k' where jk: "jk = (j, k')" by (cases jk)
    show "jk \<in> {jk \<in> occupied (memory s). snd jk \<noteq> k} \<longleftrightarrow> jk \<in> {jk \<in> occupied (memory s). fst jk \<noteq> nat v}"
    proof (cases "(j, k') \<in> occupied (memory s)")
      case False
      then show ?thesis by (simp add: jk)
    next
      case True
      have "k' = k \<longleftrightarrow> j = nat v"
      proof
        assume "k' = k"
        with True v(2) ro resident_unique [OF dk, of j k "nat v"] show "j = nat v" by simp
      next
        assume "j = nat v"
        with True v(2) occupied_unique show "k' = k" by blast
      qed
      with True show ?thesis by (simp add: jk)
    qed
  qed
  have occ: "occupied (memory s') = insert (nat v, page_key p n) {jk \<in> occupied (memory s). fst jk \<noteq> nat v}"
    using vlen by (simp add: mem occupied_set)
  have res: "resident (page_table s') = insert (nat v, page_key p n) {jk \<in> resident (page_table s). snd jk \<noteq> k}"
    using keydel by (simp add: pt resident_update resident_delete)
  have 1: "distinct (map fst (page_table s'))"
    using dk by (simp add: pt AList.distinct_update AList.distinct_delete)
  have 2: "\<forall>ke \<in> set (page_table s'). 0 \<le> e_frame_num (snd ke)"
    using c v keydel by (auto simp: pt consistent_def set_update_new AList.delete_eq)
  have 3: "resident (page_table s') = occupied (memory s')"
    using same by (simp add: occ res ro)
  have vocc: "memory s ! nat v \<noteq> None" using v(2) by (auto simp: occupied_def)
  have fstocc: "fst ` occupied (memory s') = fst ` occupied (memory s)"
    unfolding occupied_fst using vlen vocc by (auto simp: mem nth_list_update)
  have 4: "distinct (allocation_queue s')"
    using c q by (auto simp: consistent_def)
  have 5: "\<forall>g \<in> set (allocation_queue s'). 0 \<le> g \<and> nat g \<in> fst ` occupied (memory s')"
  proof
    fix g assume g: "g \<in> set (allocation_queue s')"
    show "0 \<le> g \<and> nat g \<in> fst ` occupied (memory s')"
    proof (cases "g = v")
      case True
      with v show ?thesis unfolding fstocc by force
    next
      case False
      with g q have "g \<in> set (allocation_queue s)" by auto
      with c show ?thesis unfolding fstocc by (simp add: consistent_def)
    qed
  qed
  from 1 2 3 4 5 show ?thesis by (simp add: consistent_def)
qed

section \<open>Consistency is kept by an access\<close>

lemma place_page_succeeds:
  assumes "dict_in p (processes s)" "0 \<le> f" "nat f < length (memory s)"
  shows "\<exists>s'. place_page tn tg p n a f s = (Inr False, s')"
proof -
  from assms(1) obtain proc where "map_of (processes s) p = Some proc"
    by (auto simp: dict_in_def dest: weak_map_of_SomeI)
  with py_index_valid [OF assms(2,3)] show ?thesis
    by (simp add: place_page_def Let_def)
qed

lemma select_victim_valid:
  assumes c: "consistent s" and v: "select_victim a s \<noteq> - 1"
  shows "0 \<le> select_victim a s \<and> nat (select_victim a s) \<in> fst ` occupied (memory s)
         \<and> (a = ''fifo'' \<longrightarrow> select_victim a s \<in> set (allocation_queue s))"
proof (cases "a = ''fifo''")
  case True
  with v obtain g gs where q: "allocation_queue s = g # gs"
    by (cases "allocation_queue s") (auto simp: select_victim_def find_victim_fifo_def)
  with True have "select_victim a s = g" by (simp add: select_victim_def find_victim_fifo_def)
  moreover from q have "g \<in> set (allocation_queue s)" by simp
  ultimately show ?thesis using c by (auto simp: consistent_def)
next
  case False
  then have sv: "select_victim a s = lru_scan (page_table s) None (- 1)"
    by (simp add: select_victim_def find_victim_lru_def)
  with v lru_scan_victim [of "page_table s" None "- 1"]
  obtain ke where ke: "ke \<in> set (page_table s)" "e_frame_num (snd ke) = select_victim a s"
    by auto
  then have "(nat (select_victim a s), fst ke) \<in> resident (page_table s)"
    by (force simp: resident_def)
  with c ke False show ?thesis by (force simp: consistent_def)
qed

lemma victim_key_found:
  assumes c: "consistent s" and v: "0 \<le> v" "nat v \<in> fst ` occupied (memory s)"
  shows "\<exists>k. find_victim_key v (page_table s) = Some k \<and> (nat v, k) \<in> occupied (memory s)
             \<and> k \<noteq> []"
proof -
  from c have ro: "resident (page_table s) = occupied (memory s)"
    and nn: "\<forall>ke \<in> set (page_table s). 0 \<le> e_frame_num (snd ke)" by (simp_all add: consistent_def)
  from v(2) obtain k0 where "(nat v, k0) \<in> resident (page_table s)" using ro by auto
  then obtain ke where ke: "ke \<in> set (page_table s)" "nat (e_frame_num (snd ke)) = nat v"
    by (auto simp: resident_def)
  with nn v(1) have "e_frame_num (snd ke) = v" by auto
  with ke(1) find_victim_key_None [of v "page_table s"]
  obtain k where k: "find_victim_key v (page_table s) = Some k"
    by (cases "find_victim_key v (page_table s)") auto
  from find_victim_key_Some [OF k] have "(nat v, k) \<in> resident (page_table s)"
    by (force simp: resident_def)
  with ro have occ: "(nat v, k) \<in> occupied (memory s)" by simp
  then have "k \<noteq> []" by (auto simp: occupied_def page_key_nonempty)
  with k occ show ?thesis by blast
qed

lemma consistent_page_fault:
  assumes c: "consistent s" and p: "dict_in p (processes s)"
    and k: "\<not> dict_in (page_key p n) (page_table s)"
    and pf: "page_fault te tn tg p n a s = (r, s')"
  shows "consistent s'"
proof -
  from page_fault_cases [OF pf]
  consider (free) "find_free_frame s \<noteq> - 1" "place_page tn tg p n a (find_free_frame s) s = (r, s')"
    | (none) "s' = s"
    | (raise) e where "evict_victim te (select_victim a s) a s = (Some e, s')"
    | (evict) s2 where "find_free_frame s = - 1" "select_victim a s \<noteq> - 1"
        "evict_victim te (select_victim a s) a s = (None, s2)"
        "place_page tn tg p n a (select_victim a s) s2 = (r, s')"
    by blast
  then show ?thesis
  proof cases
    case free
    from find_free_frame_free [OF free(1)] have f: "0 \<le> find_free_frame s"
      "nat (find_free_frame s) < length (memory s)" "memory s ! nat (find_free_frame s) = None"
      by simp_all
    from place_page_succeeds [OF p f(1,2), of tn tg n a] free(2) have "r = Inr False" by auto
    with free(2) consistent_place_free [OF c f k] show ?thesis by simp
  next
    case none
    with c show ?thesis by simp
  next
    case (raise e)
    from evict_victim_error [OF raise] evict_victim_fields(2) [of te "select_victim a s" a s] raise
    have "memory s' = memory s" "page_table s' = page_table s"
      "allocation_queue s' = allocation_queue s" by simp_all
    with c consistent_cong show ?thesis by blast
  next
    case (evict s2)
    let ?v = "select_victim a s"
    from select_victim_valid [OF c evict(2)]
    have v: "0 \<le> ?v" "nat ?v \<in> fst ` occupied (memory s)" by simp_all
    then have vlen: "nat ?v < length (memory s)" by (auto simp: occupied_fst)
    from victim_key_found [OF c v] obtain kv where kv: "find_victim_key ?v (page_table s) = Some kv"
      "(nat ?v, kv) \<in> occupied (memory s)" "kv \<noteq> []" by blast
    from evict_victim_ok [OF evict(3)] kv obtain msg where
      s2: "s2 = (if a = ''fifo''
                 then (add_log te msg s)\<lparr>allocation_queue := remove1 ?v (allocation_queue s),
                        page_table := AList.delete kv (page_table s)\<rparr>
                 else (add_log te msg s)\<lparr>page_table := AList.delete kv (page_table s)\<rparr>)"
      by auto
    then have s2f: "memory s2 = memory s" "processes s2 = processes s"
      "page_table s2 = AList.delete kv (page_table s)"
      "allocation_queue s2 = (if a = ''fifo'' then remove1 ?v (allocation_queue s) else allocation_queue s)"
      by simp_all
    from place_page_succeeds [of p s2 ?v tn tg n a] p v(1) vlen s2f evict(4)
    have r: "r = Inr False" by auto
    from place_page_state [of tn tg p n a ?v s2 False s'] evict(4) r
      py_index_valid [OF v(1) vlen] s2f
    obtain proc :: process where
      mem: "memory s' = (memory s)[nat ?v := Some \<lparr>f_pid = p, f_page_num = n, f_color = color proc\<rparr>]"
      and pt: "page_table s' = AList.update (page_key p n)
            \<lparr>e_frame_num = ?v, alloc_time = tn, last_used = tn\<rparr> (AList.delete kv (page_table s))"
      and q: "allocation_queue s' = (if a = ''fifo'' then remove1 ?v (allocation_queue s) @ [?v]
                                     else allocation_queue s)"
      by auto
    from k have key: "page_key p n \<notin> fst ` set (page_table s)" by (simp add: dict_in_def)
    from q have q': "allocation_queue s' = allocation_queue s
            \<or> allocation_queue s' = remove1 ?v (allocation_queue s) @ [?v]" by auto
    from consistent_replace [OF c v(1) kv(2) key mem pt q'] show ?thesis .
  qed
qed

lemma map_entry_frame_nums:
  "\<forall>ke \<in> set pt. 0 \<le> e_frame_num (snd ke) \<Longrightarrow>
   \<forall>ke \<in> set (AList.map_entry k (\<lambda>e. e\<lparr>last_used := t\<rparr>) pt). 0 \<le> e_frame_num (snd ke)"
  by (induction pt) auto

lemma consistent_page_hit: "consistent s \<Longrightarrow> consistent (page_hit tn tg p n s)"
  using map_entry_frame_nums [of "page_table s" "page_key p n" tn]
  by (simp add: consistent_def resident_map_entry AList.distinct_map_entry)

lemma consistent_count_fault: "consistent s \<Longrightarrow> consistent (count_fault s)"
  by (simp add: consistent_def)

lemma consistent_allocate_page:
  assumes "consistent s"
  shows "consistent (snd (allocate_page te tn tg p n a s))"
proof (cases "dict_in p (processes s)")
  case False
  with assms show ?thesis by (simp add: allocate_page_def)
next
  case True
  show ?thesis
  proof (cases "dict_in (page_key p n) (page_table s)")
    case hit: True
    with True assms show ?thesis by (simp add: allocate_page_def consistent_page_hit)
  next
    case miss: False
    obtain r s' where pf: "page_fault te tn tg p n a (count_fault s) = (r, s')"
      by (cases "page_fault te tn tg p n a (count_fault s)") auto
    from consistent_page_fault [OF consistent_count_fault [OF assms] _ _ pf] True miss
    have "consistent s'" by simp
    with True miss pf show ?thesis by (simp add: allocate_page_def)
  qed
qed

section \<open>Consistency is kept by removing a process, and by every run\<close>

lemma free_frame_eq:
  "i < length mem \<Longrightarrow> distinct q \<Longrightarrow>
   free_frame p i (mem, q)
     = (if owned_by p (mem ! i) then (mem[i := None], filter (\<lambda>f. f \<noteq> int i) q) else (mem, q))"
proof -
  assume d: "distinct q"
  have "(if int i \<in> set q then remove1 (int i) q else q) = filter (\<lambda>f. f \<noteq> int i) q"
    using d by (induction q) auto
  then show ?thesis
    by (auto simp: free_frame_def owned_by_def split: option.splits)
qed

lemma fold_free_frame:
  assumes "distinct q" "n \<le> length mem"
  shows "fold (free_frame p) [0..<n] (mem, q)
     = (map (release p) (take n mem) @ drop n mem,
        filter (\<lambda>f. \<not> (0 \<le> f \<and> nat f < n \<and> owned_by p (mem ! nat f))) q)"
  using assms(2)
proof (induction n)
  case 0
  show ?case by simp
next
  case (Suc n)
  let ?m = "map (release p) (take n mem) @ drop n mem"
  let ?q = "filter (\<lambda>f. \<not> (0 \<le> f \<and> nat f < n \<and> owned_by p (mem ! nat f))) q"
  from Suc.prems have n: "n < length mem" by simp
  then have IH: "fold (free_frame p) [0..<n] (mem, q) = (?m, ?q)" using Suc.IH by simp
  have len: "n < length ?m" using n by simp
  have nth: "?m ! n = mem ! n" using n by (simp add: nth_append)
  have dq: "distinct ?q" using assms(1) by simp
  have take: "map (release p) (take (Suc n) mem) @ drop (Suc n) mem
      = ?m[n := release p (mem ! n)]"
    using n by (simp add: take_Suc_conv_app_nth list_update_append upd_conv_take_nth_drop min_def)
  have step: "fold (free_frame p) [0..<Suc n] (mem, q) = free_frame p n (?m, ?q)"
    using IH by simp
  show ?case
  proof (cases "owned_by p (mem ! n)")
    case True
    have "filter (\<lambda>f. f \<noteq> int n) ?q
        = filter (\<lambda>f. \<not> (0 \<le> f \<and> nat f < Suc n \<and> owned_by p (mem ! nat f))) q"
      using True by (auto intro!: filter_cong simp: less_Suc_eq)
    with True show ?thesis
      unfolding step free_frame_eq [OF len dq] nth take by (simp add: release_def)
  next
    case False
    have "?q = filter (\<lambda>f. \<not> (0 \<le> f \<and> nat f < Suc n \<and> owned_by p (mem ! nat f))) q"
      using False by (auto intro!: filter_cong simp: less_Suc_eq)
    moreover have "?m[n := release p (mem ! n)] = ?m"
      using False nth by (simp add: release_def) (metis list_update_id)
    ultimately show ?thesis
      unfolding step free_frame_eq [OF len dq] nth take using False by simp
  qed
qed

lemma fold_delete_filter:
  "fold AList.delete ks al = filter (\<lambda>ke. fst ke \<notin> set ks) al"
  by (induction ks arbitrary: al) (auto simp: AList.delete_eq intro: filter_cong)

lemma remove_process_state:
  assumes "distinct (allocation_queue s)" "dict_in p (processes s)"
  shows "fst (remove_process t p s) = Inr ()"
    and "memory (snd (remove_process t p s)) = map (release p) (memory s)"
    and "allocation_queue (snd (remove_process t p s))
          = filter (\<lambda>f. \<not> (0 \<le> f \<and> nat f < length (memory s) \<and> owned_by p (memory s ! nat f)))
              (allocation_queue s)"
    and "page_table (snd (remove_process t p s))
          = filter (\<lambda>ke. \<not> startswith (fst ke) (process_prefix p)) (page_table s)"
    and "processes (snd (remove_process t p s)) = AList.delete p (processes s)"
proof -
  have fold: "fold (free_frame p) [0..<length (memory s)] (memory s, allocation_queue s)
      = (map (release p) (memory s),
         filter (\<lambda>f. \<not> (0 \<le> f \<and> nat f < length (memory s) \<and> owned_by p (memory s ! nat f)))
              (allocation_queue s))"
    using fold_free_frame [OF assms(1), of "length (memory s)" "memory s" p] by simp
  have keys: "filter (\<lambda>ke. fst ke \<notin> set (filter (\<lambda>k. startswith k (process_prefix p))
                                (map fst (page_table s)))) (page_table s)
       = filter (\<lambda>ke. \<not> startswith (fst ke) (process_prefix p)) (page_table s)"
    by (rule filter_cong) auto
  show "fst (remove_process t p s) = Inr ()"
    using assms(2) by (simp add: remove_process_def Let_def)
  show "memory (snd (remove_process t p s)) = map (release p) (memory s)"
    using assms(2) fold by (simp add: remove_process_def Let_def)
  show "allocation_queue (snd (remove_process t p s))
          = filter (\<lambda>f. \<not> (0 \<le> f \<and> nat f < length (memory s) \<and> owned_by p (memory s ! nat f)))
              (allocation_queue s)"
    using assms(2) fold by (simp add: remove_process_def Let_def)
  show "page_table (snd (remove_process t p s))
          = filter (\<lambda>ke. \<not> startswith (fst ke) (process_prefix p)) (page_table s)"
    using assms(2) keys by (simp add: remove_process_def Let_def fold_delete_filter)
  show "processes (snd (remove_process t p s)) = AList.delete p (processes s)"
    using assms(2) by (simp add: remove_process_def Let_def)
qed

lemma release_Some: "release p f = Some fr \<longleftrightarrow> f = Some fr \<and> f_pid fr \<noteq> p"
  by (cases f) (auto simp: release_def owned_by_def)

lemma occupied_release:
  "occupied (map (release p) mem)
     = {jk \<in> occupied mem. \<not> startswith (snd jk) (process_prefix p)}"
proof (rule set_eqI)
  fix jk :: "nat \<times> string"
  obtain i k where jk: "jk = (i, k)" by (cases jk)
  show "jk \<in> occupied (map (release p) mem)
     \<longleftrightarrow> jk \<in> {jk \<in> occupied mem. \<not> startswith (snd jk) (process_prefix p)}"
  proof
    assume "jk \<in> occupied (map (release p) mem)"
    then obtain fr where fr: "i < length mem" "release p (mem ! i) = Some fr"
      "k = page_key (f_pid fr) (f_page_num fr)"
      by (auto simp: occupied_def jk)
    then have "mem ! i = Some fr" "f_pid fr \<noteq> p" by (simp_all add: release_Some)
    with fr have "(i, k) \<in> occupied mem" "\<not> startswith k (process_prefix p)"
      by (auto simp: occupied_def startswith_page_key)
    then show "jk \<in> {jk \<in> occupied mem. \<not> startswith (snd jk) (process_prefix p)}"
      by (simp add: jk)
  next
    assume "jk \<in> {jk \<in> occupied mem. \<not> startswith (snd jk) (process_prefix p)}"
    then have "(i, k) \<in> occupied mem" and ns: "\<not> startswith k (process_prefix p)"
      by (simp_all add: jk)
    then obtain fr where fr: "i < length mem" "mem ! i = Some fr"
      "k = page_key (f_pid fr) (f_page_num fr)"
      by (auto simp: occupied_def)
    with ns have "f_pid fr \<noteq> p" by (simp add: startswith_page_key)
    with fr have "release p (mem ! i) = Some fr" by (simp add: release_Some)
    with fr show "jk \<in> occupied (map (release p) mem)"
      by (auto simp: occupied_def jk)
  qed
qed

lemma resident_filter:
  "resident (filter (\<lambda>ke. P (fst ke)) pt) = {jk \<in> resident pt. P (snd jk)}"
  by (auto simp: resident_def)

lemma consistent_remove_process:
  assumes c: "consistent s"
  shows "consistent (snd (remove_process t p s))"
proof (cases "dict_in p (processes s)")
  case False
  with c show ?thesis by (simp add: remove_process_def)
next
  case True
  let ?s' = "snd (remove_process t p s)"
  let ?pre = "process_prefix p"
  from c have dq: "distinct (allocation_queue s)" by (simp add: consistent_def)
  note st = remove_process_state [OF dq True, of t]
  have 1: "distinct (map fst (page_table ?s'))"
    using c by (simp add: st(4) consistent_def distinct_map_filter)
  have 2: "\<forall>ke \<in> set (page_table ?s'). 0 \<le> e_frame_num (snd ke)"
    using c by (simp add: st(4) consistent_def)
  have 3: "resident (page_table ?s') = occupied (memory ?s')"
    using c by (simp add: st(2,4) consistent_def occupied_release
        resident_filter [of "\<lambda>k. \<not> startswith k ?pre"])
  have 4: "distinct (allocation_queue ?s')"
    using dq by (simp add: st(3))
  have 5: "\<forall>g \<in> set (allocation_queue ?s'). 0 \<le> g \<and> nat g \<in> fst ` occupied (memory ?s')"
  proof
    fix g assume "g \<in> set (allocation_queue ?s')"
    then have g: "g \<in> set (allocation_queue s)"
      "\<not> (0 \<le> g \<and> nat g < length (memory s) \<and> owned_by p (memory s ! nat g))"
      by (simp_all add: st(3))
    with c have g0: "0 \<le> g" and "nat g \<in> fst ` occupied (memory s)" by (simp_all add: consistent_def)
    then have "nat g < length (memory s)" "memory s ! nat g \<noteq> None" by (simp_all add: occupied_fst)
    with g g0 have "release p (memory s ! nat g) \<noteq> None" by (simp add: release_def)
    with \<open>nat g < length (memory s)\<close> g0 show "0 \<le> g \<and> nat g \<in> fst ` occupied (memory ?s')"
      by (simp add: st(2) occupied_fst)
  qed
  from 1 2 3 4 5 show ?thesis by (simp add: consistent_def)
qed

lemma consistent_create_process: "consistent s \<Longrightarrow> consistent (snd (create_process t sz s))"
  by (simp add: consistent_def)

lemma consistent_fresh: "consistent (MemoryManager n)"
  by (simp add: consistent_def MemoryManager_def resident_def occupied_def)

lemma consistent_step: "consistent s \<Longrightarrow> consistent (step op s)"
  by (cases op)
    (simp_all add: consistent_create_process consistent_allocate_page consistent_remove_process
       reset_def consistent_fresh)


section \<open>The effect of a page fault\<close>

lemma update_new_append: "k \<notin> fst ` set al \<Longrightarrow> AList.update k v al = al @ [(k, v)]"
  by (induction al) auto

text \<open>What a page fault does to a consistent manager.\<close>

lemma page_fault_effect:
  assumes c: "consistent s" and p: "dict_in p (processes s)"
    and k: "\<not> dict_in (page_key p n) (page_table s)"
    and pf: "page_fault te tn tg p n a s = (r, s')"
  shows "((\<exists>e. r = Inl e) \<and> memory s' = memory s \<and> page_table s' = page_table s
            \<and> allocation_queue s' = allocation_queue s)
       \<or> (r = Inr False \<and> find_free_frame s \<noteq> - 1
            \<and> (\<exists>proc :: process.
               memory s' = (memory s)[nat (find_free_frame s) :=
                              Some \<lparr>f_pid = p, f_page_num = n, f_color = color proc\<rparr>])
            \<and> page_table s' = page_table s @ [(page_key p n,
                  \<lparr>e_frame_num = find_free_frame s, alloc_time = tn, last_used = tn\<rparr>)]
            \<and> allocation_queue s' = (if a = ''fifo'' then allocation_queue s @ [find_free_frame s]
                                      else allocation_queue s))
       \<or> (r = Inr False \<and> find_free_frame s = - 1 \<and> select_victim a s \<noteq> - 1
            \<and> (\<exists>kv. find_victim_key (select_victim a s) (page_table s) = Some kv
                  \<and> (nat (select_victim a s), kv) \<in> occupied (memory s)
                  \<and> page_table s' = AList.delete kv (page_table s) @ [(page_key p n,
                        \<lparr>e_frame_num = select_victim a s, alloc_time = tn, last_used = tn\<rparr>)])
            \<and> (\<exists>proc :: process.
               memory s' = (memory s)[nat (select_victim a s) :=
                              Some \<lparr>f_pid = p, f_page_num = n, f_color = color proc\<rparr>])
            \<and> allocation_queue s' = (if a = ''fifo''
                  then remove1 (select_victim a s) (allocation_queue s) @ [select_victim a s]
                  else allocation_queue s))"
proof -
  from k have key: "page_key p n \<notin> fst ` set (page_table s)" by (simp add: dict_in_def)
  from page_fault_cases [OF pf]
  consider (free) "find_free_frame s \<noteq> - 1" "place_page tn tg p n a (find_free_frame s) s = (r, s')"
    | (none) "r = Inl NoFramesAvailable" "s' = s"
    | (raise) e where "evict_victim te (select_victim a s) a s = (Some e, s')" "r = Inl e"
    | (evict) s2 where "find_free_frame s = - 1" "select_victim a s \<noteq> - 1"
        "evict_victim te (select_victim a s) a s = (None, s2)"
        "place_page tn tg p n a (select_victim a s) s2 = (r, s')"
    by blast
  then show ?thesis
  proof cases
    case free
    let ?f = "find_free_frame s"
    from find_free_frame_free [OF free(1)] have f: "0 \<le> ?f" "nat ?f < length (memory s)" by simp_all
    from place_page_succeeds [OF p f, of tn tg n a] free(2) have r: "r = Inr False" by auto
    from place_page_state [of tn tg p n a ?f s False s'] free(2) r py_index_valid [OF f]
    obtain proc :: process where
      "memory s' = (memory s)[nat ?f := Some \<lparr>f_pid = p, f_page_num = n, f_color = color proc\<rparr>]"
      "page_table s' = AList.update (page_key p n)
            \<lparr>e_frame_num = ?f, alloc_time = tn, last_used = tn\<rparr> (page_table s)"
      "allocation_queue s' = (if a = ''fifo'' then allocation_queue s @ [?f] else allocation_queue s)"
      by auto
    with r free(1) key show ?thesis by (auto simp: update_new_append)
  next
    case none
    then show ?thesis by simp
  next
    case (raise e)
    from evict_victim_error [OF raise(1)] evict_victim_fields(2) [of te "select_victim a s" a s] raise
    show ?thesis by simp
  next
    case (evict s2)
    let ?v = "select_victim a s"
    from select_victim_valid [OF c evict(2)]
    have v: "0 \<le> ?v" "nat ?v \<in> fst ` occupied (memory s)" by simp_all
    then have vlen: "nat ?v < length (memory s)" by (auto simp: occupied_fst)
    from victim_key_found [OF c v] obtain kv where kv: "find_victim_key ?v (page_table s) = Some kv"
      "(nat ?v, kv) \<in> occupied (memory s)" "kv \<noteq> []" by blast
    from evict_victim_ok [OF evict(3)] kv obtain msg where
      s2: "s2 = (if a = ''fifo''
                 then (add_log te msg s)\<lparr>allocation_queue := remove1 ?v (allocation_queue s),
                        page_table := AList.delete kv (page_table s)\<rparr>
                 else (add_log te msg s)\<lparr>page_table := AList.delete kv (page_table s)\<rparr>)"
      by auto
    then have s2f: "memory s2 = memory s" "processes s2 = processes s"
      "page_table s2 = AList.delete kv (page_table s)"
      "allocation_queue s2 = (if a = ''fifo'' then remove1 ?v (allocation_queue s) else allocation_queue s)"
      by simp_all
    from place_page_succeeds [of p s2 ?v tn tg n a] p v(1) vlen s2f evict(4)
    have r: "r = Inr False" by auto
    from place_page_state [of tn tg p n a ?v s2 False s'] evict(4) r
      py_index_valid [OF v(1) vlen] s2f
    obtain proc :: process where
      mem: "memory s' = (memory s)[nat ?v := Some \<lparr>f_pid = p, f_page_num = n, f_color = color proc\<rparr>]"
      and pt: "page_table s' = AList.update (page_key p n)
            \<lparr>e_frame_num = ?v, alloc_time = tn, last_used = tn\<rparr> (AList.delete kv (page_table s))"
      and q: "allocation_queue s' = (if a = ''fifo'' then remove1 ?v (allocation_queue s) @ [?v]
                                     else allocation_queue s)"
      by auto
    have keydel: "page_key p n \<notin> fst ` set (AList.delete kv (page_table s))"
      using key by (auto simp: AList.delete_eq)
    from pt keydel have pt': "page_table s' = AList.delete kv (page_table s) @ [(page_key p n,
                        \<lparr>e_frame_num = ?v, alloc_time = tn, last_used = tn\<rparr>)]"
      by (simp add: update_new_append)
    from r evict(1,2) kv(1,2) pt' mem q show ?thesis by blast
  qed
qed

section \<open>Frames and page-table entries\<close>





section \<open>The FIFO queue\<close>

lemma occupied_idx_update:
  "i < length mem \<Longrightarrow> fst ` occupied (mem[i := Some fr]) = insert i (fst ` occupied mem)"
  unfolding occupied_fst by (auto simp: nth_list_update)

lemma occupied_idx_release:
  "fst ` occupied (map (release p) mem)
     = {i. i < length mem \<and> mem ! i \<noteq> None \<and> \<not> owned_by p (mem ! i)}"
  unfolding occupied_fst by (auto simp: release_def split: if_splits)

lemma queue_page_fault:
  assumes c: "consistent s" and p: "dict_in p (processes s)"
    and k: "\<not> dict_in (page_key p n) (page_table s)"
    and q: "set (allocation_queue s) = int ` fst ` occupied (memory s)"
    and pf: "page_fault te tn tg p n ''fifo'' s = (r, s')"
  shows "set (allocation_queue s') = int ` fst ` occupied (memory s')"
proof -
  from page_fault_effect [OF c p k pf]
  consider (same) "memory s' = memory s" "allocation_queue s' = allocation_queue s"
    | (free) proc :: process where "find_free_frame s \<noteq> - 1"
        "memory s' = (memory s)[nat (find_free_frame s) :=
                              Some \<lparr>f_pid = p, f_page_num = n, f_color = color proc\<rparr>]"
        "allocation_queue s' = allocation_queue s @ [find_free_frame s]"
    | (evict) proc :: process where "select_victim ''fifo'' s \<noteq> - 1"
        "memory s' = (memory s)[nat (select_victim ''fifo'' s) :=
                              Some \<lparr>f_pid = p, f_page_num = n, f_color = color proc\<rparr>]"
        "allocation_queue s' = remove1 (select_victim ''fifo'' s) (allocation_queue s)
                                 @ [select_victim ''fifo'' s]"
    by auto
  then show ?thesis
  proof cases
    case same
    with q show ?thesis by simp
  next
    case (free proc)
    from find_free_frame_free [OF free(1)] have "0 \<le> find_free_frame s"
      "nat (find_free_frame s) < length (memory s)" by simp_all
    with q show ?thesis by (simp add: free(2,3) occupied_idx_update)
  next
    case (evict proc)
    let ?v = "select_victim ''fifo'' s"
    from select_victim_valid [OF c evict(1)] have v: "0 \<le> ?v"
      "nat ?v \<in> fst ` occupied (memory s)" "?v \<in> set (allocation_queue s)" by simp_all
    then have "nat ?v < length (memory s)" by (simp add: occupied_fst)
    then have "fst ` occupied (memory s') = fst ` occupied (memory s)"
      using v(2) by (auto simp: evict(2) occupied_idx_update)
    moreover have "set (allocation_queue s') = set (allocation_queue s)"
      using v(3) c by (auto simp: evict(3) consistent_def)
    ultimately show ?thesis using q by simp
  qed
qed

lemma queue_allocate_page:
  assumes c: "consistent s"
    and q: "set (allocation_queue s) = int ` fst ` occupied (memory s)"
  shows "set (allocation_queue (snd (allocate_page te tn tg p n ''fifo'' s)))
           = int ` fst ` occupied (memory (snd (allocate_page te tn tg p n ''fifo'' s)))"
proof (cases "dict_in p (processes s)")
  case False
  with q show ?thesis by (simp add: allocate_page_def)
next
  case True
  show ?thesis
  proof (cases "dict_in (page_key p n) (page_table s)")
    case hit: True
    with True q show ?thesis by (simp add: allocate_page_def)
  next
    case miss: False
    obtain r s' where pf: "page_fault te tn tg p n ''fifo'' (count_fault s) = (r, s')"
      by (cases "page_fault te tn tg p n ''fifo'' (count_fault s)") auto
    from queue_page_fault [OF consistent_count_fault [OF c] _ _ _ pf] True miss q
    have "set (allocation_queue s') = int ` fst ` occupied (memory s')" by simp
    with True miss pf show ?thesis by (simp add: allocate_page_def)
  qed
qed

lemma queue_remove_process:
  assumes c: "consistent s"
    and q: "set (allocation_queue s) = int ` fst ` occupied (memory s)"
  shows "set (allocation_queue (snd (remove_process t p s)))
           = int ` fst ` occupied (memory (snd (remove_process t p s)))"
proof (cases "dict_in p (processes s)")
  case False
  with q show ?thesis by (simp add: remove_process_def)
next
  case True
  from c have dq: "distinct (allocation_queue s)" by (simp add: consistent_def)
  note st = remove_process_state [OF dq True, of t]
  show ?thesis
    unfolding st(2,3) occupied_idx_release using q
    by (auto simp: occupied_fst image_iff)
qed

lemma queue_step:
  assumes "consistent s" "set (allocation_queue s) = int ` fst ` occupied (memory s)" "uses_fifo op"
  shows "set (allocation_queue (step op s)) = int ` fst ` occupied (memory (step op s))"
proof (cases op)
  case (CreateProcess t sz)
  with assms show ?thesis by simp
next
  case (AccessPage te tn tg p n a)
  with assms show ?thesis by (simp add: queue_allocate_page)
next
  case (RemoveProcess t p)
  with assms show ?thesis by (simp add: queue_remove_process)
next
  case GetState
  with assms show ?thesis by simp
next
  case Reset
  then show ?thesis by (simp add: reset_def MemoryManager_def occupied_def)
qed

lemma queue_run:
  "consistent s \<Longrightarrow> set (allocation_queue s) = int ` fst ` occupied (memory s) \<Longrightarrow>
   list_all uses_fifo ops \<Longrightarrow>
   set (allocation_queue (run ops s)) = int ` fst ` occupied (memory (run ops s))"
  unfolding run_def
proof (induction ops arbitrary: s)
  case Nil
  then show ?case by simp
next
  case (Cons op ops)
  from Cons.prems have "consistent (step op s)"
    "set (allocation_queue (step op s)) = int ` fst ` occupied (memory (step op s))"
    "list_all uses_fifo ops"
    by (simp_all add: consistent_step queue_step)
  from Cons.IH [OF this] show ?case by simp
qed

text \<open>
  C4, as stated, fails: an access under LRU fills a frame and leaves the queue empty
  (line 125 appends to the queue only when the algorithm is \<^verbatim>\<open>'fifo'\<close>).
\<close>

theorem lru_leaves_queue_empty_counterexample:
  "allocation_queue (run [CreateProcess 1 2, AccessPage 2 3 4 1 0 ''lru''] (MemoryManager 16)) = []
   \<and> memory (run [CreateProcess 1 2, AccessPage 2 3 4 1 0 ''lru''] (MemoryManager 16)) ! 0
       = Some \<lparr>f_pid = 1, f_page_num = 0, f_color = ''hsl(137, 70%, 60%)''\<rparr>"
  by code_simp

text \<open>
  C4, amended. For every run of operations on a fresh manager in which every access uses
  the FIFO policy, after every operation of the run (after the first \<open>k\<close> operations,
  for every \<open>k\<close>) the set of frame indices in the FIFO queue equals the set of indices
  of the non-empty frames.
\<close>

theorem fifo_queue_matches_frames:
  assumes "list_all uses_fifo ops"
  shows "set (allocation_queue (run (take k ops) (MemoryManager n)))
     = {int i | i. i < length (memory (run (take k ops) (MemoryManager n)))
                  \<and> memory (run (take k ops) (MemoryManager n)) ! i \<noteq> None}"
proof -
  from assms have "list_all uses_fifo (take k ops)"
    by (auto simp: list_all_iff dest: in_set_takeD)
  moreover have "set (allocation_queue (MemoryManager n)) = int ` fst ` occupied (memory (MemoryManager n))"
    by (simp add: MemoryManager_def occupied_def)
  ultimately have "set (allocation_queue (run (take k ops) (MemoryManager n)))
      = int ` fst ` occupied (memory (run (take k ops) (MemoryManager n)))"
    using queue_run [OF consistent_fresh] by blast
  then show ?thesis unfolding occupied_fst by auto
qed

text \<open>C4 (amended) on the scenario of the specification, after all five accesses.\<close>

theorem fifo_queue_matches_frames_witness:
  "list_all uses_fifo [CreateProcess 1 2, AccessPage 2 3 4 1 0 ''fifo'',
       AccessPage 5 6 7 1 1 ''fifo'', AccessPage 8 9 10 1 0 ''fifo'', CreateProcess 11 1,
       AccessPage 12 13 14 2 0 ''fifo'', RemoveProcess 15 2]
   \<and> allocation_queue (run (take 6 [CreateProcess 1 2, AccessPage 2 3 4 1 0 ''fifo'',
       AccessPage 5 6 7 1 1 ''fifo'', AccessPage 8 9 10 1 0 ''fifo'', CreateProcess 11 1,
       AccessPage 12 13 14 2 0 ''fifo'', RemoveProcess 15 2]) (MemoryManager 2)) = [1, 0]
   \<and> {int i | i. i < length (memory (run (take 6 [CreateProcess 1 2, AccessPage 2 3 4 1 0 ''fifo'',
       AccessPage 5 6 7 1 1 ''fifo'', AccessPage 8 9 10 1 0 ''fifo'', CreateProcess 11 1,
       AccessPage 12 13 14 2 0 ''fifo'', RemoveProcess 15 2]) (MemoryManager 2)))
          \<and> memory (run (take 6 [CreateProcess 1 2, AccessPage 2 3 4 1 0 ''fifo'',
       AccessPage 5 6 7 1 1 ''fifo'', AccessPage 8 9 10 1 0 ''fifo'', CreateProcess 11 1,
       AccessPage 12 13 14 2 0 ''fifo'', RemoveProcess 15 2]) (MemoryManager 2)) ! i \<noteq> None}
      = {0, 1}"
proof -
  let ?ops = "[CreateProcess 1 2, AccessPage 2 3 4 1 0 ''fifo'',
       AccessPage 5 6 7 1 1 ''fifo'', AccessPage 8 9 10 1 0 ''fifo'', CreateProcess 11 1,
       AccessPage 12 13 14 2 0 ''fifo'', RemoveProcess 15 2]"
  have f: "list_all uses_fifo ?ops" by simp
  have q: "allocation_queue (run (take 6 ?ops) (MemoryManager 2)) = [1, 0]"
    by code_simp
  from fifo_queue_matches_frames [OF f, of 6 2] q f show ?thesis by auto
qed

section \<open>Removing a process\<close>





end
